theory Spec2Isabelle
  imports Complex_Main "HOL-Library.Log_Nat"
begin

section \<open>Python strings\<close>

text \<open>
  A Python \<open>str\<close> is a sequence of Unicode code points, so a string is a list of
  natural numbers (the code points) and \<open>len\<close> is \<open>length\<close>. \<open>lit\<close> turns an ASCII
  literal into its code points.
\<close>

type_synonym pystr = "nat list"

definition lit :: "string \<Rightarrow> pystr" where
  "lit s = map of_char s"

text \<open>\<open>str.isspace\<close> on one code point: the code points Python treats as whitespace.\<close>

definition isspace :: "nat \<Rightarrow> bool" where
  "isspace c \<longleftrightarrow>
     (9 \<le> c \<and> c \<le> 13) \<or> (28 \<le> c \<and> c \<le> 32) \<or> c = 133 \<or> c = 160 \<or> c = 5760 \<or>
     (8192 \<le> c \<and> c \<le> 8202) \<or> c = 8232 \<or> c = 8233 \<or> c = 8239 \<or> c = 8287 \<or> c = 12288"

text \<open>
  \<open>s.split()\<close> with no argument: runs of whitespace separate the words, leading and
  trailing whitespace yields no empty word. \<open>split_from cur s\<close> scans \<open>s\<close> with the word
  read so far in \<open>cur\<close>.
\<close>

fun split_from :: "pystr \<Rightarrow> pystr \<Rightarrow> pystr list" where
  "split_from cur [] = (if cur = [] then [] else [cur])"
| "split_from cur (c # cs) =
     (if isspace c then (if cur = [] then split_from [] cs else cur # split_from [] cs)
      else split_from (cur @ [c]) cs)"

definition str_split :: "pystr \<Rightarrow> pystr list" where
  "str_split s = split_from [] s"

text \<open>\<open>sep.join(xs)\<close>.\<close>

fun str_join :: "pystr \<Rightarrow> pystr list \<Rightarrow> pystr" where
  "str_join sep [] = []"
| "str_join sep [x] = x"
| "str_join sep (x # y # ys) = x @ sep @ str_join sep (y # ys)"

section \<open>Python floats\<close>

text \<open>
  Python's \<open>float\<close> is IEEE 754 binary64: every arithmetic operation returns the exact
  result rounded to the nearest representable number. The model computes in the rationals
  and takes the rounding function as a parameter \<open>rnd\<close>: a float operation is the exact
  operation followed by \<open>rnd\<close>. With \<open>rnd = id\<close> the arithmetic is exact; \<open>fl64\<close> below is
  round-to-nearest-even with a 53-bit significand (exponent range unbounded: overflow and
  subnormal numbers are outside the model).
\<close>

definition pow2 :: "int \<Rightarrow> rat" where
  "pow2 e = (if 0 \<le> e then 2 ^ nat e else 1 / 2 ^ nat (- e))"

definition round_even :: "rat \<Rightarrow> int" where
  "round_even r = (let f = \<lfloor>r\<rfloor>; d = r - of_int f in
     if d < 1 / 2 then f else if 1 / 2 < d then f + 1 else if even f then f else f + 1)"

text \<open>\<open>ilog2 y\<close> is the exponent \<open>e\<close> with \<open>2^e \<le> y < 2^(e+1)\<close>, for \<open>y > 0\<close>.\<close>

definition ilog2 :: "rat \<Rightarrow> int" where
  "ilog2 y = (if 1 \<le> y then int (floorlog 2 (nat \<lfloor>y\<rfloor>)) - 1
              else (let b = int (floorlog 2 (nat \<lfloor>1 / y\<rfloor>)) in
                    if y = pow2 (1 - b) then 1 - b else - b))"

definition fl64 :: "rat \<Rightarrow> rat" where
  "fl64 x = (if x = 0 then 0 else
     let e = ilog2 \<bar>x\<bar>; q = pow2 (e - 52) in of_int (round_even (x / q)) * q)"

text \<open>
  What the theorems below need of a rounding function: the relative error of one
  operation is at most \<open>2^-53\<close>, a number with a significand below \<open>2^53\<close> and a
  moderate exponent is represented exactly, and a rounded number is not changed by
  rounding it again.
\<close>

definition float_rounding :: "(rat \<Rightarrow> rat) \<Rightarrow> bool" where
  "float_rounding rnd \<longleftrightarrow>
     (\<forall>x. \<bar>rnd x - x\<bar> \<le> \<bar>x\<bar> / 2 ^ 53) \<and>
     (\<forall>m e. \<bar>m\<bar> < 2 ^ 53 \<and> \<bar>e\<bar> \<le> 256 \<longrightarrow> rnd (of_int m * pow2 e) = of_int m * pow2 e) \<and>
     (\<forall>x. rnd (rnd x) = rnd x)"

text \<open>\<open>int(x)\<close> on a float truncates towards zero.\<close>

definition py_int :: "rat \<Rightarrow> int" where
  "py_int x = (if 0 \<le> x then \<lfloor>x\<rfloor> else \<lceil>x\<rceil>)"

section \<open>content\_generator.py: ContentGenerator.generate\_captions\<close>

record caption =
  cap_text :: pystr
  cap_start :: rat
  cap_duration :: rat
  cap_end :: rat

text \<open>
  The first loop: each word is appended to \<open>current_segment\<close>, and a segment that has
  reached \<open>words_per_caption\<close> words is joined with spaces, appended to \<open>captions\<close> and
  reset.
\<close>

fun group_words :: "int \<Rightarrow> pystr list \<Rightarrow> pystr list \<Rightarrow> pystr list \<Rightarrow> pystr list \<times> pystr list" where
  "group_words words_per_caption captions current_segment [] = (captions, current_segment)"
| "group_words words_per_caption captions current_segment (word # words) =
     (let current_segment = current_segment @ [word] in
      if int (length current_segment) \<ge> words_per_caption
      then group_words words_per_caption (captions @ [str_join (lit '' '') current_segment]) [] words
      else group_words words_per_caption captions current_segment words)"

text \<open>The second loop: the timing of each caption, with the running \<open>current_time\<close>.\<close>

fun time_captions :: "(rat \<Rightarrow> rat) \<Rightarrow> rat \<Rightarrow> rat \<Rightarrow> pystr list \<Rightarrow> caption list" where
  "time_captions rnd words_per_second current_time [] = []"
| "time_captions rnd words_per_second current_time (c # captions) =
     (let word_count = length (str_split c);
          duration = rnd (of_nat word_count / words_per_second)
      in \<lparr>cap_text = c, cap_start = current_time, cap_duration = duration,
           cap_end = rnd (current_time + duration)\<rparr>
         # time_captions rnd words_per_second (rnd (current_time + duration)) captions)"

definition caption_texts :: "pystr \<Rightarrow> int \<Rightarrow> pystr list" where
  "caption_texts script words_per_caption =
     (let words = str_split script;
          (captions, current_segment) = group_words words_per_caption [] [] words
      in if current_segment \<noteq> [] then captions @ [str_join (lit '' '') current_segment]
         else captions)"

definition generate_captions :: "(rat \<Rightarrow> rat) \<Rightarrow> pystr \<Rightarrow> int \<Rightarrow> caption list" where
  "generate_captions rnd script words_per_caption =
     (let captions = caption_texts script words_per_caption;
          words_per_second = rnd (150 / 60)
      in time_captions rnd words_per_second 0 captions)"

text \<open>The number of words of a caption, as the timing loop counts it.\<close>

definition cap_words :: "caption \<Rightarrow> pystr list" where
  "cap_words c = str_split (cap_text c)"

text \<open>A token is a non-empty string without whitespace: what \<open>split\<close> returns.\<close>

definition token :: "pystr \<Rightarrow> bool" where
  "token w \<longleftrightarrow> w \<noteq> [] \<and> (\<forall>c \<in> set w. \<not> isspace c)"

text \<open>The script of the specification's scenario.\<close>

definition fox_script :: pystr where
  "fox_script = lit ''the quick brown fox jumps over the lazy dog''"

section \<open>content\_generator.py: ContentGenerator.optimize\_for\_platform\<close>

record limits =
  max_duration :: int
  optimal_duration :: int

definition platform_limits :: "pystr \<Rightarrow> limits option" where
  "platform_limits = map_of
     [(lit ''tiktok'', \<lparr>max_duration = 180, optimal_duration = 60\<rparr>),
      (lit ''instagram'', \<lparr>max_duration = 90, optimal_duration = 30\<rparr>),
      (lit ''youtube'', \<lparr>max_duration = 60, optimal_duration = 45\<rparr>)]"

text \<open>
  \<open>(word_count / 150) * 60\<close>: the duration estimate for a number of words, the
  expression that optimize\_for\_platform and estimate\_duration both compute.
\<close>

definition words_duration :: "(rat \<Rightarrow> rat) \<Rightarrow> nat \<Rightarrow> rat" where
  "words_duration rnd word_count = rnd (rnd (of_nat word_count / 150) * 60)"

text \<open>The slice \<open>xs[:n]\<close>.\<close>

definition py_slice_to :: "'a list \<Rightarrow> int \<Rightarrow> 'a list" where
  "py_slice_to xs n = (if 0 \<le> n then take (nat n) xs else take (length xs - nat (- n)) xs)"

definition optimize_for_platform :: "(rat \<Rightarrow> rat) \<Rightarrow> pystr \<Rightarrow> pystr \<Rightarrow> pystr" where
  "optimize_for_platform rnd script platform =
     (case platform_limits platform of
        None \<Rightarrow> script
      | Some limits \<Rightarrow>
          let word_count = length (str_split script);
              estimated_duration = words_duration rnd word_count
          in if estimated_duration \<le> of_int (optimal_duration limits) then script
             else
               let target_words = py_int (rnd (rnd (of_int (optimal_duration limits) / 60) * 150));
                   words = py_slice_to (str_split script) target_words;
                   words = (if length words < length (str_split script)
                            then words @ [lit ''...''] else words)
               in str_join (lit '' '') words)"

section \<open>voice\_generator.py: VoiceGenerator.estimate\_duration\<close>

datatype py_error = ZeroDivisionError | ValueError | IndexError | ResizeError

definition estimate_duration :: "(rat \<Rightarrow> rat) \<Rightarrow> pystr \<Rightarrow> rat \<Rightarrow> py_error + rat" where
  "estimate_duration rnd text_in speed =
     (let word_count = length (str_split text_in);
          base_duration = words_duration rnd word_count
      in if speed = 0 then Inl ZeroDivisionError
         else Inr (rnd (base_duration / speed)))"

text \<open>A script of \<open>n\<close> words: the word \<open>word\<close>, \<open>n\<close> times, separated by single spaces.\<close>

definition n_words :: "nat \<Rightarrow> pystr" where
  "n_words n = str_join (lit '' '') (replicate n (lit ''word''))"

section \<open>More string operations: in, replace, strip\<close>

fun starts_with :: "'a list \<Rightarrow> 'a list \<Rightarrow> bool" where
  "starts_with [] s = True"
| "starts_with (p # ps) [] = False"
| "starts_with (p # ps) (x # xs) = (p = x \<and> starts_with ps xs)"

text \<open>\<open>sub in s\<close>: \<open>sub\<close> occurs in \<open>s\<close> as a contiguous substring.\<close>

fun str_contains :: "'a list \<Rightarrow> 'a list \<Rightarrow> bool" where
  "str_contains sub [] = (sub = [])"
| "str_contains sub (x # xs) = (starts_with sub (x # xs) \<or> str_contains sub xs)"

text \<open>
  \<open>s.replace(old, new)\<close>: every occurrence of \<open>old\<close>, found from left to right without
  overlap, is replaced by \<open>new\<close>. With an empty \<open>old\<close>, \<open>new\<close> is put before every character
  and at the end.
\<close>

function str_replace :: "'a list \<Rightarrow> 'a list \<Rightarrow> 'a list \<Rightarrow> 'a list" where
  "str_replace old new s =
     (if old = [] then new @ concat (map (\<lambda>c. c # new) s)
      else if s = [] then []
      else if starts_with old s then new @ str_replace old new (drop (length old) s)
      else hd s # str_replace old new (tl s))"
  by pat_completeness auto
termination
  by (relation "measure (\<lambda>(old, new, s). length s)") auto

declare str_replace.simps [simp del]

text \<open>\<open>s.strip()\<close>: whitespace removed at both ends.\<close>

definition str_strip :: "pystr \<Rightarrow> pystr" where
  "str_strip s = rev (dropWhile isspace (rev (dropWhile isspace s)))"

lemma starts_with_length: "starts_with p s \<Longrightarrow> length p \<le> length s"
  by (induction p s rule: starts_with.induct) simp_all

lemma str_replace_Nil: "old \<noteq> [] \<Longrightarrow> str_replace old new [] = []"
  by (simp add: str_replace.simps)

lemma str_replace_hit:
  "old \<noteq> [] \<Longrightarrow> starts_with old (x # xs) \<Longrightarrow>
     str_replace old new (x # xs) = new @ str_replace old new (drop (length old) (x # xs))"
  by (subst str_replace.simps) simp

lemma str_replace_miss:
  "old \<noteq> [] \<Longrightarrow> \<not> starts_with old (x # xs) \<Longrightarrow>
     str_replace old new (x # xs) = x # str_replace old new xs"
  by (subst str_replace.simps) simp

lemma str_replace_length_le:
  "old \<noteq> [] \<Longrightarrow> length new \<le> length old \<Longrightarrow> length (str_replace old new s) \<le> length s"
proof (induction "length s" arbitrary: s rule: less_induct)
  case less
  show ?case
  proof (cases s)
    case Nil
    then show ?thesis using less.prems by (simp add: str_replace_Nil)
  next
    case (Cons x xs)
    show ?thesis
    proof (cases "starts_with old s")
      case True
      then have l: "length old \<le> length s" by (rule starts_with_length)
      have "0 < length old" using less.prems(1) by simp
      then have "length (drop (length old) s) < length s" using Cons by simp
      from less.hyps [OF this less.prems]
      have "length (str_replace old new (drop (length old) s)) \<le> length s - length old" by simp
      moreover have "str_replace old new s = new @ str_replace old new (drop (length old) s)"
        using True Cons str_replace_hit [OF less.prems(1)] by simp
      ultimately show ?thesis using l less.prems(2) by simp
    next
      case False
      then have "str_replace old new s = x # str_replace old new xs"
        using Cons str_replace_miss [OF less.prems(1)] by simp
      moreover have "length (str_replace old new xs) \<le> length xs"
        using less.hyps [of xs] less.prems Cons by simp
      ultimately show ?thesis using Cons by simp
    qed
  qed
qed

lemma str_replace_length_less:
  "old \<noteq> [] \<Longrightarrow> length new < length old \<Longrightarrow> str_contains old s \<Longrightarrow>
     length (str_replace old new s) < length s"
proof (induction s)
  case Nil
  then show ?case by simp
next
  case (Cons x xs)
  show ?case
  proof (cases "starts_with old (x # xs)")
    case True
    then have l: "length old \<le> length (x # xs)" by (rule starts_with_length)
    have "length (str_replace old new (drop (length old) (x # xs)))
            \<le> length (drop (length old) (x # xs))"
      using Cons.prems by (intro str_replace_length_le) simp_all
    then have "length (str_replace old new (drop (length old) (x # xs)))
            \<le> length (x # xs) - length old" by simp
    moreover have "str_replace old new (x # xs)
            = new @ str_replace old new (drop (length old) (x # xs))"
      using True str_replace_hit [OF Cons.prems(1)] by simp
    ultimately show ?thesis using l Cons.prems(2) by simp
  next
    case False
    with Cons.prems(3) have "str_contains old xs" by simp
    from Cons.IH [OF Cons.prems(1,2) this]
    show ?thesis using False str_replace_miss [OF Cons.prems(1)] by simp
  qed
qed

section \<open>pdf\_processor.py: PDFProcessor.\_clean\_text\<close>

text \<open>The first loop: \<open>while '\n\n\n' in text: text = text.replace('\n\n\n', '\n\n')\<close>.\<close>

function collapse_newlines :: "pystr \<Rightarrow> pystr" where
  "collapse_newlines text_in =
     (if str_contains [10, 10, 10] text_in
      then collapse_newlines (str_replace [10, 10, 10] [10, 10] text_in)
      else text_in)"
  by pat_completeness auto
termination
  by (relation "measure length") (simp_all add: str_replace_length_less)

text \<open>The second loop: \<open>while '  ' in text: text = text.replace('  ', ' ')\<close>.\<close>

function collapse_spaces :: "pystr \<Rightarrow> pystr" where
  "collapse_spaces text_in =
     (if str_contains [32, 32] text_in
      then collapse_spaces (str_replace [32, 32] [32] text_in)
      else text_in)"
  by pat_completeness auto
termination
  by (relation "measure length") (simp_all add: str_replace_length_less)

declare collapse_newlines.simps [simp del] collapse_spaces.simps [simp del]

definition clean_text :: "pystr \<Rightarrow> pystr" where
  "clean_text text_in = str_strip (collapse_spaces (collapse_newlines text_in))"

section \<open>agents.py: ScriptAgent.generate\_script and VideoAgent.\_create\_video\_with\_text\<close>







text \<open>
  The file system: the content of the files, by path, and the directories that exist. The
  run of ffmpeg is a parameter of the model: a function from the file system to the
  outcome of the run and the file system it leaves.
\<close>

datatype file_content = Video | Text pystr













section \<open>content\_generator.py: ContentGenerator.generate\_summary\<close>

text \<open>
  What one call of \<open>client.chat.completions.create\<close> does: it raises an exception, or
  returns the text of the response. A parsed JSON object is a map from keys to values;
  \<open>json_loads\<close> is the parser, \<open>None\<close> where it raises.
\<close>

datatype api_outcome = ApiRaises | ApiReturns pystr

type_synonym json_dict = "pystr \<Rightarrow> pystr option"

text \<open>One attempt of a retried function: it returns a value or raises.\<close>

datatype 'r attempt = Returned 'r | Raised

text \<open>
  The body of generate\_summary: everything is inside \<open>try\<close>, and
  \<open>except Exception\<close> logs the error and returns \<open>None\<close>.
\<close>

definition generate_summary_body ::
  "(pystr \<Rightarrow> json_dict option) \<Rightarrow> api_outcome \<Rightarrow> json_dict option attempt" where
  "generate_summary_body json_loads response =
     (case response of
        ApiRaises \<Rightarrow> Returned None
      | ApiReturns result \<Rightarrow>
          (case json_loads result of
             None \<Rightarrow> Returned None
           | Some content \<Rightarrow>
               if \<not> list_all (\<lambda>key. content key \<noteq> None) [lit ''title'', lit ''script'']
               then Returned None
               else Returned (Some content)))"

text \<open>
  The decorator
  \<open>@retry(stop=stop_after_attempt(3), wait=wait_exponential(multiplier=1, min=4, max=10))\<close>
  of the tenacity library: an attempt that raises is followed by a wait and another
  attempt, until an attempt returns or the attempt with the last number has raised, which
  raises RetryError. An attempt that returns ends the loop, whatever it returns. The
  result is the outcome, the number of attempts made and the waits slept.
\<close>

datatype retry_error = RetryError

definition wait_exponential :: "rat \<Rightarrow> rat \<Rightarrow> rat \<Rightarrow> nat \<Rightarrow> rat" where
  "wait_exponential multiplier min_wait max_wait attempt_number =
     max (max 0 min_wait) (min (multiplier * 2 ^ (attempt_number - 1)) max_wait)"

fun retry_loop ::
  "nat \<Rightarrow> nat \<Rightarrow> (nat \<Rightarrow> rat) \<Rightarrow> (nat \<Rightarrow> 'r attempt) \<Rightarrow> (retry_error + 'r) \<times> nat \<times> rat list" where
  "retry_loop 0 attempt_number wait f = (Inl RetryError, attempt_number - 1, [])"
| "retry_loop (Suc attempts_left) attempt_number wait f =
     (case f attempt_number of
        Returned v \<Rightarrow> (Inr v, attempt_number, [])
      | Raised \<Rightarrow>
          if attempts_left = 0 then (Inl RetryError, attempt_number, [])
          else (case retry_loop attempts_left (Suc attempt_number) wait f of
                  (r, n, waits) \<Rightarrow> (r, n, wait attempt_number # waits)))"

definition generate_summary ::
  "(nat \<Rightarrow> api_outcome) \<Rightarrow> (pystr \<Rightarrow> json_dict option)
     \<Rightarrow> (retry_error + json_dict option) \<times> nat \<times> rat list" where
  "generate_summary api json_loads =
     retry_loop 3 1 (wait_exponential 1 4 10)
       (\<lambda>attempt_number. generate_summary_body json_loads (api attempt_number))"

section \<open>video\_assembler.py: VideoAssembler.\_prepare\_background\<close>




















section \<open>Properties of split and join\<close>

lemma split_from_tokens:
  "(\<forall>c \<in> set cur. \<not> isspace c) \<Longrightarrow> w \<in> set (split_from cur s) \<Longrightarrow> token w"
proof (induction s arbitrary: cur)
  case Nil
  then show ?case by (simp add: token_def split: if_splits)
next
  case (Cons c cs)
  show ?case
  proof (cases "isspace c")
    case True
    with Cons.prems have "w = cur \<and> cur \<noteq> [] \<or> w \<in> set (split_from [] cs)"
      by (simp split: if_splits)
    then show ?thesis
      using Cons.prems(1) Cons.IH [of "[]"] by (auto simp: token_def)
  next
    case False
    with Cons.prems have "w \<in> set (split_from (cur @ [c]) cs)" by simp
    moreover have "\<forall>d \<in> set (cur @ [c]). \<not> isspace d"
      using Cons.prems(1) False by simp
    ultimately show ?thesis using Cons.IH by blast
  qed
qed

lemma str_split_tokens: "w \<in> set (str_split s) \<Longrightarrow> token w"
  using split_from_tokens [of "[]" w s] by (simp add: str_split_def)

lemma split_from_nospace:
  "\<forall>c \<in> set w. \<not> isspace c \<Longrightarrow> split_from cur (w @ s) = split_from (cur @ w) s"
  by (induction w arbitrary: cur) auto

lemma isspace_32: "isspace 32"
  by (simp add: isspace_def)

lemma lit_space: "lit '' '' = [32]"
  by (simp add: lit_def)

lemma split_from_join:
  "\<forall>w \<in> set ws. token w \<Longrightarrow> cur \<noteq> [] \<or> ws \<noteq> [] \<Longrightarrow>
   split_from cur (str_join [32] ws) =
     (case ws of [] \<Rightarrow> [cur] | w # r \<Rightarrow> (cur @ w) # r)"
proof (induction "[32::nat]" ws arbitrary: cur rule: str_join.induct)
  case 1
  then show ?case by simp
next
  case (2 x)
  then have "split_from cur (x @ []) = split_from (cur @ x) []"
    by (intro split_from_nospace) (simp add: token_def)
  with 2 show ?case by (simp add: token_def)
next
  case (3 x y ys)
  have x: "\<forall>c \<in> set x. \<not> isspace c" "x \<noteq> []"
    using 3(2) by (simp_all add: token_def)
  have "split_from cur (x @ [32] @ str_join [32] (y # ys))
        = split_from (cur @ x) (32 # str_join [32] (y # ys))"
    using split_from_nospace [OF x(1)] by simp
  also have "\<dots> = (cur @ x) # split_from [] (str_join [32] (y # ys))"
    using x(2) by (simp add: isspace_32)
  also have "split_from [] (str_join [32] (y # ys)) = y # ys"
    using 3(1) [of "[]"] 3(2) by simp
  finally show ?case by simp
qed

lemma str_split_join:
  "\<forall>w \<in> set ws. token w \<Longrightarrow> str_split (str_join (lit '' '') ws) = ws"
proof (cases ws)
  case Nil
  then show ?thesis by (simp add: str_split_def)
next
  case (Cons w r)
  assume "\<forall>w \<in> set ws. token w"
  then show ?thesis
    using split_from_join [of ws "[]"] Cons by (simp add: str_split_def lit_space)
qed

lemma group_words_pos:
  assumes "0 < k" "int (length cur) < k" "\<forall>w \<in> set ws. token w"
  shows "\<exists>chs cur'. group_words k caps cur ws = (caps @ map (str_join (lit '' '')) chs, cur')
           \<and> concat chs @ cur' = cur @ ws \<and> (\<forall>ch \<in> set chs. int (length ch) = k)
           \<and> int (length cur') < k"
  using assms
proof (induction ws arbitrary: caps cur)
  case Nil
  then show ?case by simp
next
  case (Cons w ws)
  let ?cur2 = "cur @ [w]"
  show ?case
  proof (cases "int (length ?cur2) \<ge> k")
    case True
    with Cons.prems(2) have len: "int (length ?cur2) = k" by simp
    from Cons.IH [of "[]" "caps @ [str_join (lit '' '') ?cur2]"] Cons.prems
    obtain chs cur' where
      g: "group_words k (caps @ [str_join (lit '' '') ?cur2]) [] ws
            = ((caps @ [str_join (lit '' '') ?cur2]) @ map (str_join (lit '' '')) chs, cur')"
      and c: "concat chs @ cur' = [] @ ws" and l: "\<forall>ch \<in> set chs. int (length ch) = k"
      and r: "int (length cur') < k"
      by auto
    have "group_words k caps cur (w # ws)
            = (caps @ map (str_join (lit '' '')) (?cur2 # chs), cur')"
      using True g by simp
    moreover have "concat (?cur2 # chs) @ cur' = cur @ w # ws" using c by simp
    moreover have "\<forall>ch \<in> set (?cur2 # chs). int (length ch) = k" using l len by simp
    ultimately show ?thesis using r by blast
  next
    case False
    then have lt: "int (length ?cur2) < k" by simp
    from Cons.IH [of ?cur2 caps, OF Cons.prems(1) lt] Cons.prems(3)
    obtain chs cur' where
      g: "group_words k caps ?cur2 ws = (caps @ map (str_join (lit '' '')) chs, cur')"
      and c: "concat chs @ cur' = ?cur2 @ ws" and l: "\<forall>ch \<in> set chs. int (length ch) = k"
      and r: "int (length cur') < k"
      by auto
    have "group_words k caps cur (w # ws) = (caps @ map (str_join (lit '' '')) chs, cur')"
      using False g by simp
    moreover have "concat chs @ cur' = cur @ w # ws" using c by simp
    ultimately show ?thesis using l r by blast
  qed
qed

lemma group_words_nonpos:
  "k \<le> 0 \<Longrightarrow> group_words k caps [] ws = (caps @ ws, [])"
  by (induction ws arbitrary: caps) simp_all

text \<open>The chunks behind the caption texts.\<close>

lemma caption_texts_pos:
  assumes "0 < k"
  shows "\<exists>chs. caption_texts S k = map (str_join (lit '' '')) chs \<and> concat chs = str_split S
           \<and> (\<forall>i. Suc i < length chs \<longrightarrow> int (length (chs ! i)) = k)
           \<and> (\<forall>ch \<in> set chs. ch \<noteq> [] \<and> int (length ch) \<le> k)"
proof -
  have tok: "\<forall>w \<in> set (str_split S). token w" using str_split_tokens by blast
  from group_words_pos [of k "[]" "str_split S" "[]", OF assms _ tok] assms
  obtain chs cur' where
    g: "group_words k [] [] (str_split S) = (map (str_join (lit '' '')) chs, cur')"
    and c: "concat chs @ cur' = str_split S" and l: "\<forall>ch \<in> set chs. int (length ch) = k"
    and r: "int (length cur') < k"
    by auto
  let ?chs = "if cur' \<noteq> [] then chs @ [cur'] else chs"
  have 1: "caption_texts S k = map (str_join (lit '' '')) ?chs"
    using g by (simp add: caption_texts_def)
  have 2: "concat ?chs = str_split S" using c by auto
  have 3: "\<forall>i. Suc i < length ?chs \<longrightarrow> int (length (?chs ! i)) = k"
    using l by (auto simp: nth_append)
  have 4: "\<forall>ch \<in> set ?chs. ch \<noteq> [] \<and> int (length ch) \<le> k"
    using l r assms by auto
  from 1 2 3 4 show ?thesis by blast
qed

lemma caption_texts_nonpos: "k \<le> 0 \<Longrightarrow> caption_texts S k = str_split S"
  by (simp add: caption_texts_def group_words_nonpos)

lemma time_captions_text: "map cap_text (time_captions rnd wps t cs) = cs"
  by (induction cs arbitrary: t) (simp_all add: Let_def)

lemma time_captions_length: "length (time_captions rnd wps t cs) = length cs"
  by (induction cs arbitrary: t) (simp_all add: Let_def)

lemma time_captions_start:
  "cs \<noteq> [] \<Longrightarrow> cap_start (time_captions rnd wps t cs ! 0) = t"
  by (cases cs) (simp_all add: Let_def)

lemma time_captions_each:
  "c \<in> set (time_captions rnd wps t cs) \<Longrightarrow>
     cap_duration c = rnd (of_nat (length (cap_words c)) / wps) \<and>
     cap_end c = rnd (cap_start c + cap_duration c)"
  by (induction cs arbitrary: t) (auto simp: Let_def cap_words_def)

lemma time_captions_contiguous:
  "Suc i < length cs \<Longrightarrow>
     cap_end (time_captions rnd wps t cs ! i) = cap_start (time_captions rnd wps t cs ! Suc i)"
proof (induction cs arbitrary: t i)
  case Nil
  then show ?case by simp
next
  case (Cons c cs)
  show ?case
  proof (cases i)
    case 0
    with Cons.prems obtain d ds where "cs = d # ds" by (cases cs) auto
    with 0 show ?thesis by (simp add: Let_def)
  next
    case (Suc j)
    with Cons.prems have "Suc j < length cs" by simp
    from Cons.IH [OF this] Suc show ?thesis by (simp add: Let_def)
  qed
qed

lemma generate_captions_text:
  "map cap_text (generate_captions rnd S k) = caption_texts S k"
  by (simp add: generate_captions_def Let_def time_captions_text)

lemma map_str_split_join:
  "\<forall>ch \<in> set chs. \<forall>w \<in> set ch. token w \<Longrightarrow>
     map str_split (map (str_join (lit '' '')) chs) = chs"
  by (induction chs) (simp_all add: str_split_join)

lemma generate_captions_chunks:
  assumes "0 < k"
  shows "concat (map cap_words (generate_captions rnd S k)) = str_split S
       \<and> (\<forall>i. Suc i < length (generate_captions rnd S k) \<longrightarrow>
              int (length (map cap_words (generate_captions rnd S k) ! i)) = k)
       \<and> (\<forall>ch \<in> set (map cap_words (generate_captions rnd S k)). ch \<noteq> [] \<and> int (length ch) \<le> k)"
proof -
  from caption_texts_pos [OF assms, of S] obtain chs where
    t: "caption_texts S k = map (str_join (lit '' '')) chs" and c: "concat chs = str_split S"
    and l: "\<forall>i. Suc i < length chs \<longrightarrow> int (length (chs ! i)) = k"
    and n: "\<forall>ch \<in> set chs. ch \<noteq> [] \<and> int (length ch) \<le> k"
    by blast
  have tok: "\<forall>ch \<in> set chs. \<forall>w \<in> set ch. token w"
  proof (intro ballI)
    fix ch w assume "ch \<in> set chs" "w \<in> set ch"
    then have "w \<in> set (concat chs)" by auto
    then show "token w" using c str_split_tokens by simp
  qed
  have "map cap_words (generate_captions rnd S k)
          = map str_split (map cap_text (generate_captions rnd S k))"
    by (simp add: cap_words_def comp_def)
  also have "\<dots> = chs"
    using map_str_split_join [OF tok] t by (simp add: generate_captions_text)
  finally have m: "map cap_words (generate_captions rnd S k) = chs" .
  have len: "length (generate_captions rnd S k) = length chs"
    using arg_cong [OF m, of length] by simp
  show ?thesis using c l n by (simp add: m len)
qed

section \<open>The scenario of the nine-word script\<close>

lemma fl64_values:
  "fl64 (5 / 2) = 5 / 2" "fl64 2 = 2" "fl64 (2 + fl64 (8 / 5)) = fl64 (18 / 5)"
  by code_simp+

lemma fox_texts:
  "caption_texts fox_script 5 = [lit ''the quick brown fox jumps'', lit ''over the lazy dog'']"
  by (simp add: caption_texts_def fox_script_def lit_def str_split_def isspace_def)

lemma fox_word_counts:
  "length (str_split (lit ''the quick brown fox jumps'')) = 5"
  "length (str_split (lit ''over the lazy dog'')) = 4"
  by (simp_all add: lit_def str_split_def isspace_def)

lemma fox_captions_exact:
  "generate_captions id fox_script 5 =
     [\<lparr>cap_text = lit ''the quick brown fox jumps'', cap_start = 0, cap_duration = 2, cap_end = 2\<rparr>,
      \<lparr>cap_text = lit ''over the lazy dog'', cap_start = 2, cap_duration = 8 / 5, cap_end = 18 / 5\<rparr>]"
  by (simp add: generate_captions_def fox_texts fox_word_counts)

lemma fox_captions_fl64:
  "generate_captions fl64 fox_script 5 =
     [\<lparr>cap_text = lit ''the quick brown fox jumps'', cap_start = 0, cap_duration = 2, cap_end = 2\<rparr>,
      \<lparr>cap_text = lit ''over the lazy dog'', cap_start = 2, cap_duration = fl64 (8 / 5),
        cap_end = fl64 (18 / 5)\<rparr>]"
  by (simp add: generate_captions_def fox_texts fox_word_counts fl64_values Let_def)

lemma str_join_append:
  "xs \<noteq> [] \<Longrightarrow> ys \<noteq> [] \<Longrightarrow>
     str_join sep (xs @ ys) = str_join sep xs @ sep @ str_join sep ys"
proof (induction sep xs rule: str_join.induct)
  case (1 sep)
  then show ?case by simp
next
  case (2 sep x)
  then obtain y ys' where "ys = y # ys'" by (cases ys) auto
  then show ?case by simp
next
  case (3 sep x y zs)
  then show ?case by simp
qed

lemma str_join_nested:
  "\<forall>ch \<in> set chs. ch \<noteq> [] \<Longrightarrow>
     str_join sep (map (str_join sep) chs) = str_join sep (concat chs)"
proof (induction chs rule: induct_list012)
  case 1
  then show ?case by simp
next
  case (2 c)
  then show ?case by simp
next
  case (3 c d ds)
  have "concat (d # ds) \<noteq> []" using 3(3) by simp
  moreover have "c \<noteq> []" using 3(3) by simp
  ultimately have "str_join sep (c @ concat (d # ds))
                     = str_join sep c @ sep @ str_join sep (concat (d # ds))"
    by (intro str_join_append)
  moreover have "str_join sep (map (str_join sep) (d # ds)) = str_join sep (concat (d # ds))"
    using 3(2,3) by simp
  ultimately show ?case by simp
qed

lemma generate_captions_joined:
  assumes "0 < k"
  shows "str_split (str_join (lit '' '') (map cap_text (generate_captions rnd S k))) = str_split S"
proof -
  from caption_texts_pos [OF assms, of S] obtain chs where
    t: "caption_texts S k = map (str_join (lit '' '')) chs" and c: "concat chs = str_split S"
    and n: "\<forall>ch \<in> set chs. ch \<noteq> [] \<and> int (length ch) \<le> k"
    by blast
  have "str_join (lit '' '') (map cap_text (generate_captions rnd S k))
          = str_join (lit '' '') (concat chs)"
    using n by (simp add: generate_captions_text t str_join_nested)
  moreover have "str_split (str_join (lit '' '') (concat chs)) = concat chs"
    using c str_split_tokens by (intro str_split_join) simp
  ultimately show ?thesis using c by simp
qed

section \<open>Claims about generate\_captions\<close>

text \<open>
  C2. For every script and every \<open>words_per_caption\<close> \<open>k > 0\<close>: the words of the caption
  texts, in order, are exactly the words of the script (caption by caption, and also when
  the texts are joined with spaces and split again); every caption but the last has
  exactly \<open>k\<close> words, the last has between 1 and \<open>k\<close>; no caption is empty; and a script
  without words (the empty script in particular) gives the empty list.
\<close>

theorem generate_captions_words:
  assumes "0 < k"
  shows "concat (map cap_words (generate_captions rnd S k)) = str_split S
       \<and> str_split (str_join (lit '' '') (map cap_text (generate_captions rnd S k))) = str_split S
       \<and> (\<forall>i. Suc i < length (generate_captions rnd S k) \<longrightarrow>
              int (length (cap_words (generate_captions rnd S k ! i))) = k)
       \<and> (generate_captions rnd S k \<noteq> [] \<longrightarrow>
              1 \<le> length (cap_words (last (generate_captions rnd S k))) \<and>
              int (length (cap_words (last (generate_captions rnd S k)))) \<le> k)
       \<and> (\<forall>c \<in> set (generate_captions rnd S k). cap_words c \<noteq> [])
       \<and> (str_split S = [] \<longrightarrow> generate_captions rnd S k = [])
       \<and> generate_captions rnd [] k = []"
proof -
  let ?caps = "generate_captions rnd S k"
  note ch = generate_captions_chunks [OF assms, of rnd S]
  have 1: "concat (map cap_words ?caps) = str_split S" using ch by blast
  have 2: "\<forall>i. Suc i < length ?caps \<longrightarrow> int (length (cap_words (?caps ! i))) = k"
  proof (intro allI impI)
    fix i assume i: "Suc i < length ?caps"
    then have "int (length (map cap_words ?caps ! i)) = k" using ch by blast
    with i show "int (length (cap_words (?caps ! i))) = k" by simp
  qed
  have each: "\<forall>c \<in> set ?caps. cap_words c \<noteq> [] \<and> int (length (cap_words c)) \<le> k"
    using ch by simp
  have 3: "?caps \<noteq> [] \<longrightarrow> 1 \<le> length (cap_words (last ?caps)) \<and>
             int (length (cap_words (last ?caps))) \<le> k"
  proof
    assume "?caps \<noteq> []"
    then have "last ?caps \<in> set ?caps" by simp
    with each have "cap_words (last ?caps) \<noteq> [] \<and> int (length (cap_words (last ?caps))) \<le> k"
      by blast
    then show "1 \<le> length (cap_words (last ?caps)) \<and> int (length (cap_words (last ?caps))) \<le> k"
      by (cases "cap_words (last ?caps)") simp_all
  qed
  have 4: "\<forall>c \<in> set ?caps. cap_words c \<noteq> []" using each by blast
  have 5: "str_split S = [] \<longrightarrow> ?caps = []"
  proof
    assume e: "str_split S = []"
    show "?caps = []"
    proof (rule ccontr)
      assume ne: "?caps \<noteq> []"
      then obtain c cs where cc: "?caps = c # cs" by (cases ?caps) auto
      then have "cap_words c \<noteq> []" using 4 by simp
      then have "concat (map cap_words ?caps) \<noteq> []" using cc by simp
      with 1 e show False by simp
    qed
  qed
  have 6: "generate_captions rnd [] k = []"
    by (simp add: generate_captions_def caption_texts_def str_split_def)
  have 7: "str_split (str_join (lit '' '') (map cap_text ?caps)) = str_split S"
    by (rule generate_captions_joined [OF assms])
  from 1 2 3 4 5 6 7 show ?thesis by blast
qed

theorem generate_captions_words_witness:
  "(0::int) < 5
   \<and> concat (map cap_words (generate_captions id fox_script 5)) = str_split fox_script
   \<and> str_split (str_join (lit '' '') (map cap_text (generate_captions id fox_script 5)))
       = str_split fox_script
   \<and> int (length (cap_words (generate_captions id fox_script 5 ! 0))) = 5
   \<and> 1 \<le> length (cap_words (last (generate_captions id fox_script 5)))
   \<and> int (length (cap_words (last (generate_captions id fox_script 5)))) \<le> 5
   \<and> cap_words (generate_captions id fox_script 5 ! 1) \<noteq> []
   \<and> generate_captions id [] 5 = []"
  using generate_captions_words [of 5 id fox_script]
  by (simp add: fox_captions_exact)

text \<open>
  C3. The timing of the captions: the first starts at 0, each ends where the next starts,
  the duration of each is its word count divided by \<open>150 / 60\<close>, and its end is its start
  plus its duration (each a float operation, hence under \<open>rnd\<close>). The nine-word script
  with \<open>k = 5\<close> gives the two captions of the scenario: in exact arithmetic the numbers
  2, 8/5 and 18/5, in binary64 the floats nearest to them (printed 2.0, 1.6 and 3.6).
\<close>

theorem generate_captions_timing:
  "(generate_captions rnd S k \<noteq> [] \<longrightarrow> cap_start (generate_captions rnd S k ! 0) = 0)
   \<and> (\<forall>i. Suc i < length (generate_captions rnd S k) \<longrightarrow>
          cap_end (generate_captions rnd S k ! i) = cap_start (generate_captions rnd S k ! Suc i))
   \<and> (\<forall>c \<in> set (generate_captions rnd S k).
          cap_duration c = rnd (of_nat (length (cap_words c)) / rnd (150 / 60)) \<and>
          cap_end c = rnd (cap_start c + cap_duration c))
   \<and> generate_captions id fox_script 5 =
        [\<lparr>cap_text = lit ''the quick brown fox jumps'', cap_start = 0, cap_duration = 2,
           cap_end = 2\<rparr>,
         \<lparr>cap_text = lit ''over the lazy dog'', cap_start = 2, cap_duration = 8 / 5,
           cap_end = 18 / 5\<rparr>]
   \<and> generate_captions fl64 fox_script 5 =
        [\<lparr>cap_text = lit ''the quick brown fox jumps'', cap_start = 0, cap_duration = 2,
           cap_end = 2\<rparr>,
         \<lparr>cap_text = lit ''over the lazy dog'', cap_start = 2, cap_duration = fl64 (8 / 5),
           cap_end = fl64 (18 / 5)\<rparr>]"
proof -
  let ?cs = "caption_texts S k"
  let ?caps = "generate_captions rnd S k"
  have caps: "?caps = time_captions rnd (rnd (150 / 60)) 0 ?cs"
    by (simp add: generate_captions_def Let_def)
  have len: "length ?caps = length ?cs"
    by (simp add: caps time_captions_length)
  have 1: "?caps \<noteq> [] \<longrightarrow> cap_start (?caps ! 0) = 0"
  proof
    assume "?caps \<noteq> []"
    with len have "?cs \<noteq> []" by auto
    from time_captions_start [OF this, of rnd "rnd (150 / 60)" 0]
    show "cap_start (?caps ! 0) = 0" by (simp add: caps)
  qed
  have 2: "\<forall>i. Suc i < length ?caps \<longrightarrow> cap_end (?caps ! i) = cap_start (?caps ! Suc i)"
    using time_captions_contiguous [of _ ?cs rnd "rnd (150 / 60)" 0] len by (simp add: caps)
  have 3: "\<forall>c \<in> set ?caps. cap_duration c = rnd (of_nat (length (cap_words c)) / rnd (150 / 60)) \<and>
             cap_end c = rnd (cap_start c + cap_duration c)"
    using time_captions_each [of _ rnd "rnd (150 / 60)" 0 ?cs] by (simp add: caps)
  from 1 2 3 fox_captions_exact fox_captions_fl64 show ?thesis by blast
qed

theorem generate_captions_timing_witness:
  "cap_start (generate_captions id fox_script 5 ! 0) = 0
   \<and> cap_end (generate_captions id fox_script 5 ! 0) = cap_start (generate_captions id fox_script 5 ! Suc 0)
   \<and> cap_duration (generate_captions id fox_script 5 ! 1)
         = id (of_nat (length (cap_words (generate_captions id fox_script 5 ! 1))) / id (150 / 60))
   \<and> cap_end (generate_captions id fox_script 5 ! 1)
         = id (cap_start (generate_captions id fox_script 5 ! 1)
               + cap_duration (generate_captions id fox_script 5 ! 1))"
  using generate_captions_timing [of id fox_script 5]
  by (simp add: fox_captions_exact)

text \<open>
  C10. For \<open>words_per_caption \<le> 0\<close> the function still returns: every word of the
  script is a caption of its own, of duration \<open>1 / (150 / 60)\<close>, with the same timing
  (first start 0, each end the next start, end = start + duration).
\<close>

theorem generate_captions_nonpositive:
  assumes "k \<le> 0"
  shows "map cap_text (generate_captions rnd S k) = str_split S
       \<and> length (generate_captions rnd S k) = length (str_split S)
       \<and> (\<forall>c \<in> set (generate_captions rnd S k).
              length (cap_words c) = 1 \<and> cap_duration c = rnd (1 / rnd (150 / 60)) \<and>
              cap_end c = rnd (cap_start c + cap_duration c))
       \<and> (generate_captions rnd S k \<noteq> [] \<longrightarrow> cap_start (generate_captions rnd S k ! 0) = 0)
       \<and> (\<forall>i. Suc i < length (generate_captions rnd S k) \<longrightarrow>
              cap_end (generate_captions rnd S k ! i) = cap_start (generate_captions rnd S k ! Suc i))"
proof -
  let ?ws = "str_split S"
  let ?caps = "generate_captions rnd S k"
  have caps: "?caps = time_captions rnd (rnd (150 / 60)) 0 ?ws"
    using assms by (simp add: generate_captions_def Let_def caption_texts_nonpos)
  have texts: "map cap_text ?caps = ?ws" by (simp add: caps time_captions_text)
  have len: "length ?caps = length ?ws" by (simp add: caps time_captions_length)
  have one: "\<forall>c \<in> set ?caps. length (cap_words c) = 1"
  proof
    fix c assume c: "c \<in> set ?caps"
    then have "cap_text c \<in> set (map cap_text ?caps)" by simp
    then have t: "token (cap_text c)" using texts str_split_tokens by simp
    have "str_split (str_join (lit '' '') [cap_text c]) = [cap_text c]"
      using t by (intro str_split_join) simp
    then show "length (cap_words c) = 1" by (simp add: cap_words_def)
  qed
  have each: "\<forall>c \<in> set ?caps. length (cap_words c) = 1 \<and>
                cap_duration c = rnd (1 / rnd (150 / 60)) \<and>
                cap_end c = rnd (cap_start c + cap_duration c)"
  proof
    fix c assume c: "c \<in> set ?caps"
    with one have 1: "length (cap_words c) = 1" by blast
    from c time_captions_each [of c rnd "rnd (150 / 60)" 0 ?ws]
    have "cap_duration c = rnd (of_nat (length (cap_words c)) / rnd (150 / 60)) \<and>
          cap_end c = rnd (cap_start c + cap_duration c)"
      by (simp add: caps)
    with 1 show "length (cap_words c) = 1 \<and> cap_duration c = rnd (1 / rnd (150 / 60)) \<and>
                 cap_end c = rnd (cap_start c + cap_duration c)" by simp
  qed
  have st: "?caps \<noteq> [] \<longrightarrow> cap_start (?caps ! 0) = 0"
  proof
    assume "?caps \<noteq> []"
    with len have "?ws \<noteq> []" by auto
    from time_captions_start [OF this, of rnd "rnd (150 / 60)" 0]
    show "cap_start (?caps ! 0) = 0" by (simp add: caps)
  qed
  have ct: "\<forall>i. Suc i < length ?caps \<longrightarrow> cap_end (?caps ! i) = cap_start (?caps ! Suc i)"
    using time_captions_contiguous [of _ ?ws rnd "rnd (150 / 60)" 0] len by (simp add: caps)
  from texts len each st ct show ?thesis by blast
qed

lemma fox_captions_zero:
  "generate_captions id (lit ''lazy dog'') 0 =
     [\<lparr>cap_text = lit ''lazy'', cap_start = 0, cap_duration = 2 / 5, cap_end = 2 / 5\<rparr>,
      \<lparr>cap_text = lit ''dog'', cap_start = 2 / 5, cap_duration = 2 / 5, cap_end = 4 / 5\<rparr>]"
  by (simp add: generate_captions_def caption_texts_def lit_def str_split_def isspace_def Let_def)

theorem generate_captions_nonpositive_witness:
  "(0::int) \<le> 0
   \<and> map cap_text (generate_captions id (lit ''lazy dog'') 0) = str_split (lit ''lazy dog'')
   \<and> length (generate_captions id (lit ''lazy dog'') 0) = length (str_split (lit ''lazy dog''))
   \<and> length (cap_words (generate_captions id (lit ''lazy dog'') 0 ! 1)) = 1
   \<and> cap_duration (generate_captions id (lit ''lazy dog'') 0 ! 1) = id (1 / id (150 / 60))
   \<and> cap_start (generate_captions id (lit ''lazy dog'') 0 ! 0) = 0
   \<and> cap_end (generate_captions id (lit ''lazy dog'') 0 ! 0)
         = cap_start (generate_captions id (lit ''lazy dog'') 0 ! Suc 0)"
  using generate_captions_nonpositive [of 0 id "lit ''lazy dog''"]
  by (simp add: fox_captions_zero)

section \<open>The binary64 model is a float rounding\<close>

lemma pow2_powi: "pow2 e = 2 powi e"
  by (simp add: pow2_def power_int_def inverse_eq_divide power_one_over)

lemma pow2_pos: "0 < pow2 e"
  by (simp add: pow2_def)

lemma pow2_add: "pow2 (a + b) = pow2 a * pow2 b"
  by (simp add: pow2_powi power_int_add)

lemma pow2_le: "a \<le> b \<Longrightarrow> pow2 a \<le> pow2 b"
  by (simp add: pow2_powi power_int_increasing)

lemma pow2_less_cancel: "pow2 a < pow2 b \<Longrightarrow> a < b"
  using pow2_le [of b a] by (cases "a < b") auto

lemma round_even_err: "\<bar>of_int (round_even r) - r\<bar> \<le> 1 / 2"
proof -
  have "of_int \<lfloor>r\<rfloor> \<le> r" "r < of_int \<lfloor>r\<rfloor> + 1" by linarith+
  then show ?thesis
    by (auto simp: round_even_def Let_def abs_le_iff)
qed

lemma round_even_int: "round_even (of_int n) = n"
  by (simp add: round_even_def)

lemma pow2_nat: "pow2 (int n) = 2 ^ n"
  by (simp add: pow2_def)

lemma floorlog2_lower: "0 < m \<Longrightarrow> (2::nat) ^ (floorlog 2 m - 1) \<le> m"
  using floorlog_bounds [of m 2] by simp

lemma floorlog2_upper: "0 < m \<Longrightarrow> m < (2::nat) ^ floorlog 2 m"
  using floorlog_bounds [of m 2] by simp

lemma floorlog2_pos: "0 < m \<Longrightarrow> 0 < floorlog 2 m"
  by (simp add: floorlog_def)

lemma ilog2_ge1: "1 \<le> y \<Longrightarrow> ilog2 y = int (floorlog 2 (nat \<lfloor>y\<rfloor>) - 1)"
proof -
  assume y: "1 \<le> y"
  then have "0 < nat \<lfloor>y\<rfloor>" by simp
  then have "0 < floorlog 2 (nat \<lfloor>y\<rfloor>)" by (rule floorlog2_pos)
  then have "int (floorlog 2 (nat \<lfloor>y\<rfloor>)) - 1 = int (floorlog 2 (nat \<lfloor>y\<rfloor>) - 1)"
    by linarith
  then show ?thesis using y unfolding ilog2_def by (simp only: if_True)
qed

lemma floor_nat_le: "1 \<le> (y::rat) \<Longrightarrow> of_nat (nat \<lfloor>y\<rfloor>) \<le> y"
proof -
  assume "1 \<le> y"
  then have "0 \<le> \<lfloor>y\<rfloor>" by simp
  then have "(of_nat (nat \<lfloor>y\<rfloor>) :: rat) = of_int \<lfloor>y\<rfloor>" by simp
  then show ?thesis by simp
qed

lemma ilog2_lower_ge1:
  assumes "1 \<le> y"
  shows "pow2 (ilog2 y) \<le> y"
proof -
  let ?m = "nat \<lfloor>y\<rfloor>"
  from assms have m: "0 < ?m" by simp
  have "pow2 (ilog2 y) = 2 ^ (floorlog 2 ?m - 1)"
    by (simp only: ilog2_ge1 [OF assms] pow2_nat)
  also have "\<dots> = of_nat (2 ^ (floorlog 2 ?m - 1))" by simp
  also have "\<dots> \<le> of_nat ?m"
    using floorlog2_lower [OF m] by (simp only: of_nat_le_iff)
  also have "\<dots> \<le> y" using assms by (rule floor_nat_le)
  finally show ?thesis .
qed

lemma pow2_neg_nat: "pow2 (- int n) = 1 / 2 ^ n"
proof (cases n)
  case 0
  then show ?thesis by (simp add: pow2_def)
next
  case (Suc k)
  then have "\<not> 0 \<le> - int n" by simp
  moreover have "nat (- (- int n)) = n" by simp
  ultimately show ?thesis unfolding pow2_def by (simp only: if_False)
qed

lemma ilog2_lower_lt1:
  assumes "0 < y" "\<not> 1 \<le> y"
  shows "pow2 (ilog2 y) \<le> y"
proof -
  define z where "z = 1 / y"
  define m where "m = nat \<lfloor>z\<rfloor>"
  define b where "b = floorlog 2 m"
  from assms have z: "1 < z" by (simp add: z_def)
  then have m: "0 < m" by (simp add: m_def)
  have il: "ilog2 y = (if y = pow2 (1 - int b) then 1 - int b else - int b)"
    using assms(2) unfolding ilog2_def Let_def b_def m_def z_def by (simp only: if_False)
  show ?thesis
  proof (cases "y = pow2 (1 - int b)")
    case True
    then have "ilog2 y = 1 - int b" using il by simp
    with True show ?thesis by simp
  next
    case False
    then have e: "ilog2 y = - int b" using il by simp
    from floorlog2_upper [OF m] have "m + 1 \<le> 2 ^ b" unfolding b_def by linarith
    then have "(of_nat (m + 1) :: rat) \<le> of_nat (2 ^ b)"
      by (simp only: of_nat_le_iff)
    moreover have "(of_nat (m + 1) :: rat) = of_int \<lfloor>z\<rfloor> + 1"
    proof -
      from z have "0 \<le> \<lfloor>z\<rfloor>" by simp
      then have "(of_nat m :: rat) = of_int \<lfloor>z\<rfloor>" by (simp add: m_def)
      then show ?thesis by simp
    qed
    ultimately have up: "of_int \<lfloor>z\<rfloor> + 1 \<le> (2::rat) ^ b" by simp
    have "z < of_int \<lfloor>z\<rfloor> + 1" by linarith
    with up have "1 / y \<le> 2 ^ b" unfolding z_def by linarith
    then have "1 \<le> 2 ^ b * y" using assms(1) by (simp add: field_simps)
    then have "1 / 2 ^ b \<le> y" by (simp add: field_simps)
    then show ?thesis by (simp only: e pow2_neg_nat)
  qed
qed

lemma ilog2_lower: "0 < y \<Longrightarrow> pow2 (ilog2 y) \<le> y"
  using ilog2_lower_ge1 ilog2_lower_lt1 by blast

lemma fl64_rel_err: "\<bar>fl64 x - x\<bar> \<le> \<bar>x\<bar> / 2 ^ 53"
proof (cases "x = 0")
  case True
  then show ?thesis by (simp add: fl64_def)
next
  case False
  define e where "e = ilog2 \<bar>x\<bar>"
  define q where "q = pow2 (e - 52)"
  define n where "n = round_even (x / q)"
  have q: "0 < q" by (simp add: q_def pow2_pos)
  have f: "fl64 x = of_int n * q"
    using False by (simp add: fl64_def Let_def e_def q_def n_def)
  have "\<bar>of_int n - x / q\<bar> \<le> 1 / 2" unfolding n_def by (rule round_even_err)
  then have "\<bar>of_int n - x / q\<bar> * q \<le> 1 / 2 * q"
    using q by (intro mult_right_mono) simp_all
  moreover have "\<bar>of_int n - x / q\<bar> * q = \<bar>of_int n * q - x\<bar>"
  proof -
    have "\<bar>of_int n - x / q\<bar> * q = \<bar>(of_int n - x / q) * q\<bar>"
      using q by (simp add: abs_mult)
    also have "(of_int n - x / q) * q = of_int n * q - x"
      using q by (simp add: field_simps)
    finally show ?thesis .
  qed
  ultimately have err: "\<bar>fl64 x - x\<bar> \<le> q / 2" by (simp add: f)
  have "pow2 e \<le> \<bar>x\<bar>" unfolding e_def using False by (intro ilog2_lower) simp
  moreover have "pow2 e = q * 2 ^ 52"
  proof -
    have "pow2 e = pow2 ((e - 52) + 52)" by simp
    also have "\<dots> = pow2 (e - 52) * pow2 52" by (rule pow2_add)
    finally show ?thesis by (simp add: q_def pow2_def)
  qed
  ultimately have "q * 2 ^ 52 \<le> \<bar>x\<bar>" by simp
  then have "q / 2 \<le> \<bar>x\<bar> / 2 ^ 53" by (simp add: field_simps)
  with err show ?thesis by linarith
qed

lemma fl64_exact:
  assumes "\<bar>m\<bar> < 2 ^ 53"
  shows "fl64 (of_int m * pow2 k) = of_int m * pow2 k"
proof (cases "m = 0")
  case True
  then show ?thesis by (simp add: fl64_def)
next
  case False
  define x where "x = of_int m * pow2 k"
  define e where "e = ilog2 \<bar>x\<bar>"
  define q where "q = pow2 (e - 52)"
  have x0: "x \<noteq> 0" using False pow2_pos [of k] by (simp add: x_def)
  have q: "0 < q" by (simp add: q_def pow2_pos)
  have absx: "\<bar>x\<bar> = of_int \<bar>m\<bar> * pow2 k"
    using pow2_pos [of k] by (simp add: x_def abs_mult)
  have "pow2 e \<le> \<bar>x\<bar>" unfolding e_def using x0 by (intro ilog2_lower) simp
  also have "\<bar>x\<bar> < 2 ^ 53 * pow2 k"
  proof -
    have "(of_int \<bar>m\<bar> :: rat) < of_int (2 ^ 53)" using assms of_int_less_iff by blast
    then have "(of_int \<bar>m\<bar> :: rat) < 2 ^ 53" by simp
    then show ?thesis unfolding absx using pow2_pos [of k] by (intro mult_strict_right_mono)
  qed
  also have "2 ^ 53 * pow2 k = pow2 (53 + k)"
    using pow2_nat [of 53] by (simp only: pow2_add of_nat_numeral)
  finally have "e < 53 + k" by (rule pow2_less_cancel)
  define j where "j = nat (k - (e - 52))"
  have j: "k = (e - 52) + int j" using \<open>e < 53 + k\<close> by (simp add: j_def)
  have "pow2 k = q * 2 ^ j" unfolding j q_def by (simp add: pow2_add pow2_nat)
  then have xq: "x / q = of_int (m * 2 ^ j)" using q by (simp add: x_def)
  have "fl64 x = of_int (round_even (x / q)) * q"
    using x0 by (simp add: fl64_def Let_def e_def q_def)
  also have "\<dots> = of_int (m * 2 ^ j) * q" by (simp only: xq round_even_int)
  also have "\<dots> = x" using xq q by (simp add: field_simps)
  finally show ?thesis by (simp add: x_def)
qed


section \<open>Float arithmetic of the duration estimate\<close>

lemma rnd_exact:
  "float_rounding rnd \<Longrightarrow> \<bar>m\<bar> < 2 ^ 53 \<Longrightarrow> \<bar>e\<bar> \<le> 256 \<Longrightarrow>
     rnd (of_int m * pow2 e) = of_int m * pow2 e"
  unfolding float_rounding_def by blast

lemma rnd_int: "float_rounding rnd \<Longrightarrow> \<bar>m\<bar> < 2 ^ 53 \<Longrightarrow> rnd (of_int m) = of_int m"
  using rnd_exact [of rnd m 0] by (simp add: pow2_def)

lemma rnd_consts:
  assumes "float_rounding rnd"
  shows "rnd 1 = 1" "rnd 30 = 30" "rnd 60 = 60" "rnd 75 = 75" "rnd 150 = 150"
    "rnd (1 / 2) = 1 / 2" "rnd (3 / 4) = 3 / 4" "rnd (225 / 2) = 225 / 2" "rnd (5 / 2) = 5 / 2"
proof -
  show "rnd 1 = 1" using rnd_int [OF assms, of 1] by simp
  show "rnd 30 = 30" using rnd_int [OF assms, of 30] by simp
  show "rnd 60 = 60" using rnd_int [OF assms, of 60] by simp
  show "rnd 75 = 75" using rnd_int [OF assms, of 75] by simp
  show "rnd 150 = 150" using rnd_int [OF assms, of 150] by simp
  show "rnd (1 / 2) = 1 / 2" using rnd_exact [OF assms, of 1 "-1"] by (simp add: pow2_def)
  show "rnd (3 / 4) = 3 / 4" using rnd_exact [OF assms, of 3 "-2"] by (simp add: pow2_def)
  show "rnd (225 / 2) = 225 / 2" using rnd_exact [OF assms, of 225 "-1"] by (simp add: pow2_def)
  show "rnd (5 / 2) = 5 / 2" using rnd_exact [OF assms, of 5 "-1"] by (simp add: pow2_def)
qed

lemma rnd_bounds:
  assumes "float_rounding rnd" "0 \<le> x"
  shows "999 / 1000 * x \<le> rnd x" "rnd x \<le> 1001 / 1000 * x"
proof -
  have "\<bar>rnd x - x\<bar> \<le> \<bar>x\<bar> / 2 ^ 53"
    using assms(1) unfolding float_rounding_def by blast
  moreover have "\<bar>x\<bar> / 2 ^ 53 \<le> x / 1000"
    using assms(2) by (simp add: field_simps)
  ultimately have "\<bar>rnd x - x\<bar> \<le> x / 1000" by linarith
  then show "999 / 1000 * x \<le> rnd x" "rnd x \<le> 1001 / 1000 * x"
    by linarith+
qed

lemma words_duration_bounds:
  assumes "float_rounding rnd"
  shows "998 / 2500 * of_nat n \<le> words_duration rnd n"
    and "words_duration rnd n \<le> 1003 / 2500 * of_nat n"
proof -
  define x :: rat where "x = of_nat n / 150"
  define y where "y = rnd x"
  have x0: "0 \<le> x" by (simp add: x_def)
  note bx = rnd_bounds [OF assms x0]
  have y0: "0 \<le> y * 60" using bx(1) x0 unfolding y_def by simp
  note by' = rnd_bounds [OF assms y0]
  have w: "words_duration rnd n = rnd (y * 60)"
    by (simp add: words_duration_def y_def x_def)
  have xn: "of_nat n = 150 * x" by (simp add: x_def)
  show "998 / 2500 * of_nat n \<le> words_duration rnd n"
    using bx(1) by'(1) x0 unfolding w xn y_def by linarith
  show "words_duration rnd n \<le> 1003 / 2500 * of_nat n"
    using bx(2) by'(2) x0 unfolding w xn y_def by linarith
qed

lemma words_duration_exact:
  assumes "float_rounding rnd"
  shows "words_duration rnd 150 = 60" "words_duration rnd 75 = 30"
  by (simp_all add: words_duration_def rnd_consts [OF assms])

lemma words_duration_le_iff:
  assumes "float_rounding rnd"
  shows "words_duration rnd n \<le> 60 \<longleftrightarrow> n \<le> 150"
    and "words_duration rnd n \<le> 30 \<longleftrightarrow> n \<le> 75"
    and "words_duration rnd n \<le> 45 \<longleftrightarrow> n \<le> 112"
proof -
  note b = words_duration_bounds [OF assms, of n]
  note e = words_duration_exact [OF assms]
  show "words_duration rnd n \<le> 60 \<longleftrightarrow> n \<le> 150"
  proof (cases "n = 150")
    case True
    then show ?thesis using e by simp
  next
    case False
    show ?thesis
    proof (cases "n < 150")
      case True
      then have "(of_nat n :: rat) \<le> 149" by (simp add: of_nat_le_iff [of n 149, where 'a = rat, simplified])
      with b(2) True show ?thesis by simp
    next
      case ge: False
      with False have "151 \<le> n" by simp
      then have "(151 :: rat) \<le> of_nat n"
        using of_nat_le_iff [of 151 n, where 'a = rat] by simp
      with b(1) ge False show ?thesis by simp
    qed
  qed
  show "words_duration rnd n \<le> 30 \<longleftrightarrow> n \<le> 75"
  proof (cases "n = 75")
    case True
    then show ?thesis using e by simp
  next
    case False
    show ?thesis
    proof (cases "n < 75")
      case True
      then have "(of_nat n :: rat) \<le> 74" by (simp add: of_nat_le_iff [of n 74, where 'a = rat, simplified])
      with b(2) True show ?thesis by simp
    next
      case ge: False
      with False have "76 \<le> n" by simp
      then have "(76 :: rat) \<le> of_nat n"
        using of_nat_le_iff [of 76 n, where 'a = rat] by simp
      with b(1) ge False show ?thesis by simp
    qed
  qed
  show "words_duration rnd n \<le> 45 \<longleftrightarrow> n \<le> 112"
  proof (cases "n \<le> 112")
    case True
    then have "(of_nat n :: rat) \<le> 112" by (simp add: of_nat_le_iff [of n 112, where 'a = rat, simplified])
    with b(2) True show ?thesis by simp
  next
    case False
    then have "113 \<le> n" by simp
    then have "(113 :: rat) \<le> of_nat n"
      using of_nat_le_iff [of 113 n, where 'a = rat] by simp
    with b(1) False show ?thesis by simp
  qed
qed

lemma target_words_values:
  assumes "float_rounding rnd"
  shows "py_int (rnd (rnd (60 / 60) * 150)) = 150"
    and "py_int (rnd (rnd (30 / 60) * 150)) = 75"
    and "py_int (rnd (rnd (45 / 60) * 150)) = 112"
proof -
  have f: "\<lfloor>225 / 2 :: rat\<rfloor> = 112" by (simp add: floor_eq_iff)
  show "py_int (rnd (rnd (60 / 60) * 150)) = 150"
    by (simp add: py_int_def rnd_consts [OF assms])
  show "py_int (rnd (rnd (30 / 60) * 150)) = 75"
    by (simp add: py_int_def rnd_consts [OF assms])
  show "py_int (rnd (rnd (45 / 60) * 150)) = 112"
    by (simp add: py_int_def rnd_consts [OF assms] f)
qed

lemma pow2_less: "a < b \<Longrightarrow> pow2 a < pow2 b"
  by (simp add: pow2_powi power_int_strict_increasing)

lemma ilog2_upper_ge1:
  assumes "1 \<le> y"
  shows "y < pow2 (ilog2 y + 1)"
proof -
  define m where "m = nat \<lfloor>y\<rfloor>"
  define b where "b = floorlog 2 m"
  from assms have m: "0 < m" by (simp add: m_def)
  have b: "0 < b" unfolding b_def using m by (rule floorlog2_pos)
  have "ilog2 y = int (b - 1)" unfolding b_def m_def using assms by (rule ilog2_ge1)
  then have e: "ilog2 y + 1 = int b" using b by linarith
  from floorlog2_upper [OF m] have "m + 1 \<le> 2 ^ b" unfolding b_def by linarith
  then have "(of_nat (m + 1) :: rat) \<le> of_nat (2 ^ b)" by (simp only: of_nat_le_iff)
  moreover have "(of_nat (m + 1) :: rat) = of_int \<lfloor>y\<rfloor> + 1"
  proof -
    from assms have "0 \<le> \<lfloor>y\<rfloor>" by simp
    then have "(of_nat m :: rat) = of_int \<lfloor>y\<rfloor>" by (simp add: m_def)
    then show ?thesis by simp
  qed
  ultimately have "of_int \<lfloor>y\<rfloor> + 1 \<le> (2::rat) ^ b" by simp
  moreover have "y < of_int \<lfloor>y\<rfloor> + 1" by linarith
  ultimately have "y < 2 ^ b" by linarith
  then show ?thesis by (simp only: e pow2_nat)
qed

lemma ilog2_upper_lt1:
  assumes "0 < y" "\<not> 1 \<le> y"
  shows "y < pow2 (ilog2 y + 1)"
proof -
  define z where "z = 1 / y"
  define m where "m = nat \<lfloor>z\<rfloor>"
  define b where "b = floorlog 2 m"
  from assms have z: "1 < z" by (simp add: z_def)
  then have m: "0 < m" by (simp add: m_def)
  have b: "0 < b" unfolding b_def using m by (rule floorlog2_pos)
  have il: "ilog2 y = (if y = pow2 (1 - int b) then 1 - int b else - int b)"
    using assms(2) unfolding ilog2_def Let_def b_def m_def z_def by (simp only: if_False)
  have low: "y \<le> pow2 (1 - int b)"
  proof -
    from floorlog2_lower [OF m] have "2 ^ (b - 1) \<le> m" unfolding b_def .
    then have "(of_nat (2 ^ (b - 1)) :: rat) \<le> of_nat m" by (simp only: of_nat_le_iff)
    then have "(2::rat) ^ (b - 1) \<le> of_nat m" by simp
    moreover have "(of_nat m :: rat) \<le> z"
    proof -
      from z have "0 \<le> \<lfloor>z\<rfloor>" by simp
      then have "(of_nat m :: rat) = of_int \<lfloor>z\<rfloor>" by (simp add: m_def)
      then show ?thesis by simp
    qed
    ultimately have "(2::rat) ^ (b - 1) \<le> 1 / y" unfolding z_def by linarith
    then have "2 ^ (b - 1) * y \<le> 1" using assms(1) by (simp add: field_simps)
    then have "y \<le> 1 / 2 ^ (b - 1)" by (simp add: field_simps)
    moreover have "1 - int b = - int (b - 1)" using b by linarith
    ultimately show ?thesis by (simp only: pow2_neg_nat)
  qed
  show ?thesis
  proof (cases "y = pow2 (1 - int b)")
    case True
    then have "ilog2 y = 1 - int b" using il by simp
    moreover have "pow2 (1 - int b) < pow2 (1 - int b + 1)" by (rule pow2_less) simp
    ultimately show ?thesis using True by simp
  next
    case False
    then have "ilog2 y = - int b" using il by simp
    then have "ilog2 y + 1 = 1 - int b" by simp
    with low False show ?thesis by simp
  qed
qed

lemma ilog2_upper: "0 < y \<Longrightarrow> y < pow2 (ilog2 y + 1)"
  using ilog2_upper_ge1 ilog2_upper_lt1 by blast

lemma round_even_mono_bound:
  assumes "\<bar>r\<bar> < of_int N"
  shows "\<bar>round_even r\<bar> \<le> N"
proof -
  have f: "of_int \<lfloor>r\<rfloor> \<le> r" "r < of_int \<lfloor>r\<rfloor> + 1" by linarith+
  from assms have "r < of_int N" "- of_int N < r" by linarith+
  then have "\<lfloor>r\<rfloor> < N" "- N \<le> \<lfloor>r\<rfloor>"
    by (simp_all add: floor_less_iff le_floor_iff)
  moreover have "round_even r = \<lfloor>r\<rfloor> \<or> round_even r = \<lfloor>r\<rfloor> + 1"
    by (simp add: round_even_def Let_def)
  ultimately show ?thesis by linarith
qed

lemma fl64_idem: "fl64 (fl64 x) = fl64 x"
proof (cases "x = 0")
  case True
  then show ?thesis by (simp add: fl64_def)
next
  case False
  define e where "e = ilog2 \<bar>x\<bar>"
  define q where "q = pow2 (e - 52)"
  define n where "n = round_even (x / q)"
  have q: "0 < q" by (simp add: q_def pow2_pos)
  have f: "fl64 x = of_int n * q"
    using False by (simp add: fl64_def Let_def e_def q_def n_def)
  have p53: "pow2 53 = 2 ^ 53" using pow2_nat [of 53] by simp
  have up: "pow2 (e + 1) = q * 2 ^ 53"
  proof -
    have "e + 1 = (e - 52) + 53" by linarith
    then have "pow2 (e + 1) = pow2 ((e - 52) + 53)" by (rule arg_cong)
    also have "\<dots> = pow2 (e - 52) * pow2 53" by (rule pow2_add)
    finally show ?thesis by (simp only: q_def p53)
  qed
  have "\<bar>x\<bar> < pow2 (e + 1)" unfolding e_def using False by (intro ilog2_upper) simp
  then have "\<bar>x\<bar> < q * 2 ^ 53" by (simp only: up)
  then have "\<bar>x\<bar> / q < 2 ^ 53" using q by (simp add: field_simps)
  moreover have "\<bar>x / q\<bar> = \<bar>x\<bar> / q" using q by (simp add: abs_divide)
  ultimately have "\<bar>x / q\<bar> < 2 ^ 53" by (simp only:)
  then have "\<bar>x / q\<bar> < of_int (2 ^ 53)" by simp
  then have nb: "\<bar>n\<bar> \<le> 2 ^ 53" unfolding n_def by (rule round_even_mono_bound)
  consider "\<bar>n\<bar> < 2 ^ 53" | "n = 2 ^ 53" | "n = - (2 ^ 53)" using nb by linarith
  then show ?thesis
  proof cases
    case 1
    from fl64_exact [OF 1, of "e - 52"] show ?thesis by (simp only: f q_def)
  next
    case 2
    then have "of_int n * q = of_int 1 * pow2 (e + 1)" by (simp add: up)
    moreover have "fl64 (of_int 1 * pow2 (e + 1)) = of_int 1 * pow2 (e + 1)"
      by (rule fl64_exact) simp
    ultimately show ?thesis by (simp only: f)
  next
    case 3
    then have "of_int n * q = of_int (- 1) * pow2 (e + 1)" by (simp add: up)
    moreover have "fl64 (of_int (- 1) * pow2 (e + 1)) = of_int (- 1) * pow2 (e + 1)"
      by (rule fl64_exact) simp
    ultimately show ?thesis by (simp only: f)
  qed
qed

lemma float_rounding_fl64: "float_rounding fl64"
  unfolding float_rounding_def using fl64_rel_err fl64_exact fl64_idem by blast

section \<open>Claims about optimize\_for\_platform\<close>

lemma rnd_idem: "float_rounding rnd \<Longrightarrow> rnd (rnd x) = rnd x"
  unfolding float_rounding_def by blast

lemma lit_tiktok: "lit ''tiktok'' = [116, 105, 107, 116, 111, 107]"
  by (simp add: lit_def)

lemma lit_instagram: "lit ''instagram'' = [105, 110, 115, 116, 97, 103, 114, 97, 109]"
  by (simp add: lit_def)

lemma lit_youtube: "lit ''youtube'' = [121, 111, 117, 116, 117, 98, 101]"
  by (simp add: lit_def)

lemma platform_limits_values:
  "platform_limits (lit ''tiktok'') = Some \<lparr>max_duration = 180, optimal_duration = 60\<rparr>"
  "platform_limits (lit ''instagram'') = Some \<lparr>max_duration = 90, optimal_duration = 30\<rparr>"
  "platform_limits (lit ''youtube'') = Some \<lparr>max_duration = 60, optimal_duration = 45\<rparr>"
  by (simp_all add: platform_limits_def lit_tiktok lit_instagram lit_youtube)

lemma platform_limits_cases:
  assumes "platform_limits P = Some lims"
  shows "optimal_duration lims = 60 \<or> optimal_duration lims = 30 \<or> optimal_duration lims = 45"
  using assms by (auto simp: platform_limits_def split: if_splits)

text \<open>The word budget \<open>floor(optimal_duration / 60 * 150)\<close>, in exact arithmetic.\<close>

lemma budget_values:
  "nat \<lfloor>of_int 60 / 60 * 150 :: rat\<rfloor> = 150"
  "nat \<lfloor>of_int 30 / 60 * 150 :: rat\<rfloor> = 75"
  "nat \<lfloor>of_int 45 / 60 * 150 :: rat\<rfloor> = 112"
proof -
  have f: "\<lfloor>225 / 2 :: rat\<rfloor> = 112" by (simp add: floor_eq_iff)
  show "nat \<lfloor>of_int 60 / 60 * 150 :: rat\<rfloor> = 150" by simp
  show "nat \<lfloor>of_int 30 / 60 * 150 :: rat\<rfloor> = 75" by simp
  show "nat \<lfloor>of_int 45 / 60 * 150 :: rat\<rfloor> = 112" by (simp add: f)
qed

lemma within_budget_iff:
  assumes "float_rounding rnd" "platform_limits P = Some lims"
  shows "words_duration rnd n \<le> of_int (optimal_duration lims)
           \<longleftrightarrow> n \<le> nat \<lfloor>of_int (optimal_duration lims) / 60 * 150 :: rat\<rfloor>"
  using platform_limits_cases [OF assms(2)] words_duration_le_iff [OF assms(1), of n]
    budget_values by auto

lemma target_words_budget:
  assumes "float_rounding rnd" "platform_limits P = Some lims"
  shows "py_int (rnd (rnd (of_int (optimal_duration lims) / 60) * 150))
           = int (nat \<lfloor>of_int (optimal_duration lims) / 60 * 150 :: rat\<rfloor>)"
  using platform_limits_cases [OF assms(2)] target_words_values [OF assms(1)]
    budget_values by auto

lemma optimize_unchanged:
  assumes "platform_limits P = Some lims"
    and "words_duration rnd (length (str_split S)) \<le> of_int (optimal_duration lims)"
  shows "optimize_for_platform rnd S P = S"
  using assms by (simp add: optimize_for_platform_def Let_def)

lemma optimize_truncated:
  assumes "float_rounding rnd" "platform_limits P = Some lims"
    and "\<not> words_duration rnd (length (str_split S)) \<le> of_int (optimal_duration lims)"
  shows "optimize_for_platform rnd S P =
           str_join (lit '' '')
             (take (nat \<lfloor>of_int (optimal_duration lims) / 60 * 150 :: rat\<rfloor>) (str_split S) @ [lit ''...''])"
proof -
  let ?T = "nat \<lfloor>of_int (optimal_duration lims) / 60 * 150 :: rat\<rfloor>"
  from assms(3) within_budget_iff [OF assms(1,2)] have gt: "?T < length (str_split S)" by simp
  have tw: "py_int (rnd (rnd (of_int (optimal_duration lims) / 60) * 150)) = int ?T"
    by (rule target_words_budget [OF assms(1,2)])
  have sl: "py_slice_to (str_split S) (int ?T) = take ?T (str_split S)"
    by (simp add: py_slice_to_def)
  have len: "length (take ?T (str_split S)) < length (str_split S)" using gt by simp
  show ?thesis
    unfolding optimize_for_platform_def Let_def
    by (simp only: assms(2) option.case assms(3) if_False tw sl len if_True)
qed

lemma token_ellipsis: "token (lit ''...'')"
  by (simp add: token_def lit_def isspace_def)

lemma split_truncated:
  "str_split (str_join (lit '' '') (take T (str_split S) @ [lit ''...'']))
     = take T (str_split S) @ [lit ''...'']"
proof (rule str_split_join)
  show "\<forall>w \<in> set (take T (str_split S) @ [lit ''...'']). token w"
    using str_split_tokens [of _ S] token_ellipsis by (auto dest: in_set_takeD)
qed

lemma token_word: "token (lit ''word'')"
  by (simp add: token_def lit_def isspace_def)

lemma split_n_words: "str_split (n_words n) = replicate n (lit ''word'')"
  unfolding n_words_def by (rule str_split_join) (simp add: token_word)

lemma length_n_words: "length (str_split (n_words n)) = n"
  by (simp add: split_n_words)

lemma platform_limits_unknown: "platform_limits (lit ''facebook'') = None"
  by (simp add: platform_limits_def lit_def)

text \<open>
  C4. For a platform of the table and a script whose estimated duration exceeds the
  platform's optimal duration, the result is the first \<open>floor(optimal / 60 * 150)\<close> words
  of the script followed by the token \<open>...\<close>, joined by single spaces; a 200-word script
  for youtube is cut to its first 112 words and the marker; for a platform that is not in
  the table the script is returned as it is.
\<close>

theorem optimize_truncates_to_budget:
  assumes "float_rounding rnd"
  shows "(platform_limits P = Some lims \<and>
          of_int (optimal_duration lims) < words_duration rnd (length (str_split S)) \<longrightarrow>
            optimize_for_platform rnd S P =
              str_join (lit '' '')
                (take (nat \<lfloor>of_int (optimal_duration lims) / 60 * 150 :: rat\<rfloor>) (str_split S)
                 @ [lit ''...'']) \<and>
            str_split (optimize_for_platform rnd S P) =
              take (nat \<lfloor>of_int (optimal_duration lims) / 60 * 150 :: rat\<rfloor>) (str_split S)
              @ [lit ''...''] \<and>
            length (take (nat \<lfloor>of_int (optimal_duration lims) / 60 * 150 :: rat\<rfloor>) (str_split S))
              = nat \<lfloor>of_int (optimal_duration lims) / 60 * 150 :: rat\<rfloor>)
       \<and> (length (str_split S) = 200 \<longrightarrow>
            str_split (optimize_for_platform rnd S (lit ''youtube''))
              = take 112 (str_split S) @ [lit ''...''])
       \<and> (platform_limits P = None \<longrightarrow> optimize_for_platform rnd S P = S)"
proof (intro conjI impI)
  assume a: "platform_limits P = Some lims \<and>
             of_int (optimal_duration lims) < words_duration rnd (length (str_split S))"
  let ?T = "nat \<lfloor>of_int (optimal_duration lims) / 60 * 150 :: rat\<rfloor>"
  from a have p: "platform_limits P = Some lims"
    and n: "\<not> words_duration rnd (length (str_split S)) \<le> of_int (optimal_duration lims)"
    by simp_all
  show o: "optimize_for_platform rnd S P =
          str_join (lit '' '') (take ?T (str_split S) @ [lit ''...''])"
    by (rule optimize_truncated [OF assms p n])
  show "str_split (optimize_for_platform rnd S P) = take ?T (str_split S) @ [lit ''...'']"
    by (simp only: o split_truncated)
  from n within_budget_iff [OF assms p] have "?T < length (str_split S)" by simp
  then show "length (take ?T (str_split S)) = ?T" by simp
next
  assume l: "length (str_split S) = 200"
  let ?lims = "\<lparr>max_duration = 60, optimal_duration = 45\<rparr>"
  have p: "platform_limits (lit ''youtube'') = Some ?lims" by (rule platform_limits_values)
  have "\<not> words_duration rnd (length (str_split S)) \<le> 45"
    using words_duration_le_iff(3) [OF assms, of 200] l by simp
  then have n: "\<not> words_duration rnd (length (str_split S)) \<le> of_int (optimal_duration ?lims)"
    by simp
  have t: "nat \<lfloor>of_int (optimal_duration ?lims) / 60 * 150 :: rat\<rfloor> = 112"
    using budget_values(3) by simp
  from optimize_truncated [OF assms p n]
  have "optimize_for_platform rnd S (lit ''youtube'') =
          str_join (lit '' '') (take 112 (str_split S) @ [lit ''...''])"
    by (simp only: t)
  then show "str_split (optimize_for_platform rnd S (lit ''youtube''))
               = take 112 (str_split S) @ [lit ''...'']"
    by (simp only: split_truncated)
next
  assume "platform_limits P = None"
  then show "optimize_for_platform rnd S P = S"
    by (simp add: optimize_for_platform_def)
qed

theorem optimize_truncates_to_budget_witness:
  "float_rounding fl64
   \<and> platform_limits (lit ''instagram'') = Some \<lparr>max_duration = 90, optimal_duration = 30\<rparr>
   \<and> of_int (optimal_duration \<lparr>max_duration = 90, optimal_duration = 30\<rparr>)
       < words_duration fl64 (length (str_split (n_words 76)))
   \<and> optimize_for_platform fl64 (n_words 76) (lit ''instagram'')
       = str_join (lit '' '') (take 75 (str_split (n_words 76)) @ [lit ''...''])
   \<and> length (str_split (n_words 200)) = 200
   \<and> str_split (optimize_for_platform fl64 (n_words 200) (lit ''youtube''))
       = take 112 (str_split (n_words 200)) @ [lit ''...'']
   \<and> platform_limits (lit ''facebook'') = None
   \<and> optimize_for_platform fl64 (n_words 3) (lit ''facebook'') = n_words 3"
proof -
  let ?lims = "\<lparr>max_duration = 90, optimal_duration = 30\<rparr>"
  have p: "platform_limits (lit ''instagram'') = Some ?lims" by (rule platform_limits_values)
  have "\<not> words_duration fl64 76 \<le> 30"
    using words_duration_le_iff(2) [OF float_rounding_fl64, of 76] by simp
  then have g: "of_int (optimal_duration ?lims) < words_duration fl64 (length (str_split (n_words 76)))"
    by (simp add: length_n_words)
  have t: "nat \<lfloor>of_int (optimal_duration ?lims) / 60 * 150 :: rat\<rfloor> = 75"
    using budget_values(2) by simp
  note a = optimize_truncates_to_budget [OF float_rounding_fl64, of "lit ''instagram''" ?lims "n_words 76"]
  note b = optimize_truncates_to_budget [OF float_rounding_fl64, of "lit ''facebook''" ?lims "n_words 200"]
  note c = optimize_truncates_to_budget [OF float_rounding_fl64, of "lit ''facebook''" ?lims "n_words 3"]
  have 1: "optimize_for_platform fl64 (n_words 76) (lit ''instagram'')
       = str_join (lit '' '') (take 75 (str_split (n_words 76)) @ [lit ''...''])"
    using a p g by (simp only: t)
  have 2: "str_split (optimize_for_platform fl64 (n_words 200) (lit ''youtube''))
       = take 112 (str_split (n_words 200)) @ [lit ''...'']"
    using b length_n_words [of 200] by blast
  have 3: "optimize_for_platform fl64 (n_words 3) (lit ''facebook'') = n_words 3"
    using c platform_limits_unknown by blast
  from float_rounding_fl64 p g 1 length_n_words [of 200] 2 platform_limits_unknown 3
  show ?thesis by blast
qed

text \<open>
  C1, as stated, fails: when the script is cut, the returned string has the kept words and
  the marker \<open>...\<close>, which \<open>split\<close> counts as a word, so its estimate is one word over
  the budget. A 76-word script for instagram comes back with 76 tokens: estimate 30.4 s,
  optimal duration 30 s.
\<close>

theorem optimize_estimate_counterexample:
  "\<not> words_duration fl64
       (length (str_split (optimize_for_platform fl64 (n_words 76) (lit ''instagram''))))
     \<le> of_int (optimal_duration \<lparr>max_duration = 90, optimal_duration = 30\<rparr>)"
proof -
  let ?lims = "\<lparr>max_duration = 90, optimal_duration = 30\<rparr>"
  have p: "platform_limits (lit ''instagram'') = Some ?lims" by (rule platform_limits_values)
  have over: "\<not> words_duration fl64 76 \<le> 30"
    using words_duration_le_iff(2) [OF float_rounding_fl64, of 76] by simp
  then have n: "\<not> words_duration fl64 (length (str_split (n_words 76)))
                   \<le> of_int (optimal_duration ?lims)"
    by (simp add: length_n_words)
  have t: "nat \<lfloor>of_int (optimal_duration ?lims) / 60 * 150 :: rat\<rfloor> = 75"
    using budget_values(2) by simp
  from optimize_truncated [OF float_rounding_fl64 p n]
  have "optimize_for_platform fl64 (n_words 76) (lit ''instagram'')
          = str_join (lit '' '') (take 75 (str_split (n_words 76)) @ [lit ''...''])"
    by (simp only: t)
  then have "str_split (optimize_for_platform fl64 (n_words 76) (lit ''instagram''))
          = take 75 (str_split (n_words 76)) @ [lit ''...'']"
    by (simp only: split_truncated)
  then have "length (str_split (optimize_for_platform fl64 (n_words 76) (lit ''instagram''))) = 76"
    by (simp add: length_n_words)
  with over show ?thesis by simp
qed

text \<open>
  C1, amended. For a platform of the table: a script whose estimated duration is at most
  the optimal duration is returned unchanged; otherwise the result is the kept words
  followed by the marker \<open>...\<close>, the kept words alone are within the optimal duration, and
  the estimate of the whole result (the marker counted as a word) is over it.
\<close>

theorem optimize_within_budget_before_marker:
  assumes "float_rounding rnd" "platform_limits P = Some lims"
  shows "(words_duration rnd (length (str_split S)) \<le> of_int (optimal_duration lims) \<longrightarrow>
            optimize_for_platform rnd S P = S)
       \<and> (\<not> words_duration rnd (length (str_split S)) \<le> of_int (optimal_duration lims) \<longrightarrow>
            (\<exists>kept. str_split (optimize_for_platform rnd S P) = kept @ [lit ''...''] \<and>
               kept = take (length kept) (str_split S) \<and>
               words_duration rnd (length kept) \<le> of_int (optimal_duration lims) \<and>
               \<not> words_duration rnd (length (str_split (optimize_for_platform rnd S P)))
                   \<le> of_int (optimal_duration lims)))"
proof (intro conjI impI)
  assume "words_duration rnd (length (str_split S)) \<le> of_int (optimal_duration lims)"
  then show "optimize_for_platform rnd S P = S" by (rule optimize_unchanged [OF assms(2)])
next
  assume n: "\<not> words_duration rnd (length (str_split S)) \<le> of_int (optimal_duration lims)"
  let ?T = "nat \<lfloor>of_int (optimal_duration lims) / 60 * 150 :: rat\<rfloor>"
  let ?kept = "take ?T (str_split S)"
  note iff = within_budget_iff [OF assms]
  from n iff have gt: "?T < length (str_split S)" by simp
  then have len: "length ?kept = ?T" by simp
  have s: "str_split (optimize_for_platform rnd S P) = ?kept @ [lit ''...'']"
    by (simp only: optimize_truncated [OF assms n] split_truncated)
  have k: "?kept = take (length ?kept) (str_split S)" by (simp only: len)
  have w: "words_duration rnd (length ?kept) \<le> of_int (optimal_duration lims)"
    using iff [of ?T] by (simp only: len)
  have "length (str_split (optimize_for_platform rnd S P)) = Suc ?T"
    using len by (simp add: s del: length_take)
  then have x: "\<not> words_duration rnd (length (str_split (optimize_for_platform rnd S P)))
                   \<le> of_int (optimal_duration lims)"
    using iff [of "Suc ?T"] by simp
  from s k w x show "\<exists>kept. str_split (optimize_for_platform rnd S P) = kept @ [lit ''...''] \<and>
       kept = take (length kept) (str_split S) \<and>
       words_duration rnd (length kept) \<le> of_int (optimal_duration lims) \<and>
       \<not> words_duration rnd (length (str_split (optimize_for_platform rnd S P)))
           \<le> of_int (optimal_duration lims)"
    by blast
qed

theorem optimize_within_budget_before_marker_witness:
  "float_rounding fl64
   \<and> platform_limits (lit ''instagram'') = Some \<lparr>max_duration = 90, optimal_duration = 30\<rparr>
   \<and> words_duration fl64 (length (str_split (n_words 75))) \<le> 30
   \<and> optimize_for_platform fl64 (n_words 75) (lit ''instagram'') = n_words 75
   \<and> \<not> words_duration fl64 (length (str_split (n_words 76))) \<le> 30
   \<and> (\<exists>kept. str_split (optimize_for_platform fl64 (n_words 76) (lit ''instagram''))
                 = kept @ [lit ''...''] \<and>
               kept = take (length kept) (str_split (n_words 76)) \<and>
               words_duration fl64 (length kept) \<le> 30)"
proof -
  let ?lims = "\<lparr>max_duration = 90, optimal_duration = 30\<rparr>"
  have p: "platform_limits (lit ''instagram'') = Some ?lims" by (rule platform_limits_values)
  have le: "words_duration fl64 (length (str_split (n_words 75))) \<le> 30"
    using words_duration_le_iff(2) [OF float_rounding_fl64, of 75] by (simp add: length_n_words)
  have gt: "\<not> words_duration fl64 (length (str_split (n_words 76))) \<le> 30"
    using words_duration_le_iff(2) [OF float_rounding_fl64, of 76] by (simp add: length_n_words)
  note a = optimize_within_budget_before_marker [OF float_rounding_fl64 p, of "n_words 75"]
  note b = optimize_within_budget_before_marker [OF float_rounding_fl64 p, of "n_words 76"]
  have 1: "optimize_for_platform fl64 (n_words 75) (lit ''instagram'') = n_words 75"
    using a le by simp
  have 2: "\<exists>kept. str_split (optimize_for_platform fl64 (n_words 76) (lit ''instagram''))
                 = kept @ [lit ''...''] \<and>
               kept = take (length kept) (str_split (n_words 76)) \<and>
               words_duration fl64 (length kept) \<le> 30"
    using b gt by simp blast
  from float_rounding_fl64 p le 1 gt 2 show ?thesis by blast
qed

section \<open>The three duration estimates\<close>

lemma cap_words_single:
  assumes "token (cap_text c)"
  shows "cap_words c = [cap_text c]"
proof -
  have "str_split (str_join (lit '' '') [cap_text c]) = [cap_text c]"
    using assms by (intro str_split_join) simp
  then show ?thesis by (simp add: cap_words_def)
qed

lemma concat_singletons:
  "\<forall>c \<in> set cs. f c = [g c] \<Longrightarrow> concat (map f cs) = map g cs"
  by (induction cs) simp_all

lemma sum_list_map_eq:
  "\<forall>c \<in> set cs. f c = (g c :: rat) \<Longrightarrow> sum_list (map f cs) = sum_list (map g cs)"
  by (induction cs) simp_all

lemma sum_list_times:
  "sum_list (map (\<lambda>c. f c * (a :: rat)) cs) = sum_list (map f cs) * a"
  by (induction cs) (simp_all add: distrib_right)

lemma captions_words_all:
  "concat (map cap_words (generate_captions rnd S k)) = str_split S"
proof (cases "0 < k")
  case True
  then show ?thesis using generate_captions_chunks [of k rnd S] by blast
next
  case False
  then have k: "k \<le> 0" by simp
  let ?caps = "generate_captions rnd S k"
  have t: "map cap_text ?caps = str_split S"
    using k by (simp add: generate_captions_text caption_texts_nonpos)
  have "\<forall>c \<in> set ?caps. cap_words c = [cap_text c]"
  proof
    fix c assume "c \<in> set ?caps"
    then have "cap_text c \<in> set (map cap_text ?caps)" by simp
    then have "token (cap_text c)" using t str_split_tokens by simp
    then show "cap_words c = [cap_text c]" by (rule cap_words_single)
  qed
  then have "concat (map cap_words ?caps) = map cap_text ?caps" by (rule concat_singletons)
  then show ?thesis by (simp only: t)
qed

lemma captions_word_total:
  "sum_list (map (\<lambda>c. length (cap_words c)) (generate_captions rnd S k)) = length (str_split S)"
proof -
  have "length (concat (map cap_words (generate_captions rnd S k))) = length (str_split S)"
    by (simp only: captions_words_all)
  then show ?thesis by (simp add: length_concat comp_def)
qed

lemma captions_duration_each:
  assumes "c \<in> set (generate_captions rnd S k)"
  shows "cap_duration c = rnd (of_nat (length (cap_words c)) / rnd (150 / 60))"
  using assms time_captions_each [of c rnd "rnd (150 / 60)" 0 "caption_texts S k"]
  by (simp add: generate_captions_def Let_def)

lemma sum_list_of_nat_rat:
  "sum_list (map (\<lambda>c. (of_nat (f c) :: rat)) cs) = of_nat (sum_list (map f cs))"
  by (induction cs) simp_all

lemma exact_caption_sum:
  "sum_list (map cap_duration (generate_captions id S k)) = of_nat (length (str_split S)) / 150 * 60"
proof -
  let ?caps = "generate_captions id S k"
  have "\<forall>c \<in> set ?caps. cap_duration c = of_nat (length (cap_words c)) * (2 / 5)"
  proof
    fix c assume "c \<in> set ?caps"
    from captions_duration_each [OF this]
    show "cap_duration c = of_nat (length (cap_words c)) * (2 / 5)" by simp
  qed
  then have "sum_list (map cap_duration ?caps)
               = sum_list (map (\<lambda>c. of_nat (length (cap_words c)) * (2 / 5)) ?caps)"
    by (rule sum_list_map_eq)
  also have "\<dots> = sum_list (map (\<lambda>c. of_nat (length (cap_words c))) ?caps) * (2 / 5)"
    by (rule sum_list_times)
  also have "\<dots> = of_nat (length (str_split S)) * (2 / 5)"
    by (simp only: sum_list_of_nat_rat captions_word_total)
  finally show ?thesis by simp
qed

lemma rnd_rel:
  "float_rounding rnd \<Longrightarrow> \<bar>rnd x - x\<bar> \<le> \<bar>x\<bar> / 2 ^ 53"
  unfolding float_rounding_def by blast

lemma sum_list_abs_diff:
  "\<forall>c \<in> set cs. \<bar>f c - g c\<bar> \<le> (h c :: rat) \<Longrightarrow>
     \<bar>sum_list (map f cs) - sum_list (map g cs)\<bar> \<le> sum_list (map h cs)"
proof (induction cs)
  case Nil
  then show ?case by simp
next
  case (Cons c cs)
  then have "\<bar>f c - g c\<bar> \<le> h c"
    and "\<bar>sum_list (map f cs) - sum_list (map g cs)\<bar> \<le> sum_list (map h cs)"
    by simp_all
  then show ?case by simp
qed

lemma float_caption_sum:
  assumes "float_rounding rnd"
  shows "\<bar>sum_list (map cap_duration (generate_captions rnd S k))
           - of_nat (length (str_split S)) * (2 / 5)\<bar>
         \<le> of_nat (length (str_split S)) * (2 / 5) / 2 ^ 53"
proof -
  let ?caps = "generate_captions rnd S k"
  let ?g = "\<lambda>c. (of_nat (length (cap_words c)) :: rat) * (2 / 5)"
  let ?h = "\<lambda>c. (of_nat (length (cap_words c)) :: rat) * (2 / 5 / 2 ^ 53)"
  have each: "\<forall>c \<in> set ?caps. \<bar>cap_duration c - ?g c\<bar> \<le> ?h c"
  proof
    fix c assume "c \<in> set ?caps"
    from captions_duration_each [OF this]
    have d: "cap_duration c = rnd (?g c)" by (simp add: rnd_consts [OF assms])
    have "\<bar>rnd (?g c) - ?g c\<bar> \<le> \<bar>?g c\<bar> / 2 ^ 53" by (rule rnd_rel [OF assms])
    moreover have "\<bar>?g c\<bar> = ?g c" by simp
    ultimately show "\<bar>cap_duration c - ?g c\<bar> \<le> ?h c" by (simp only: d) simp
  qed
  have tot: "sum_list (map (\<lambda>c. (of_nat (length (cap_words c)) :: rat)) ?caps)
               = of_nat (length (str_split S))"
    by (simp only: sum_list_of_nat_rat captions_word_total)
  have g: "sum_list (map ?g ?caps) = of_nat (length (str_split S)) * (2 / 5)"
    by (simp only: sum_list_times tot)
  have h: "sum_list (map ?h ?caps) = of_nat (length (str_split S)) * (2 / 5 / 2 ^ 53)"
    by (simp only: sum_list_times tot)
  from sum_list_abs_diff [OF each] show ?thesis by (simp only: g h) simp
qed

lemma two_powers: "(2::rat) ^ 53 = 9007199254740992" "(2::rat) ^ 52 = 4503599627370496"
  by simp_all

lemma float_words_duration:
  assumes "float_rounding rnd"
  shows "\<bar>words_duration rnd n - of_nat n * (2 / 5)\<bar> \<le> of_nat n * (2 / 5) * (3 / 2 ^ 53)"
proof -
  define x :: rat where "x = of_nat n / 150"
  define y where "y = rnd x"
  define w where "w = rnd (y * 60)"
  have x0: "0 \<le> x" by (simp add: x_def)
  have "\<bar>x\<bar> = x" using x0 by simp
  with rnd_rel [OF assms, of x] have ex: "\<bar>y - x\<bar> \<le> x / 2 ^ 53" by (simp only: y_def)
  then have y0: "0 \<le> y" using x0 unfolding two_powers by linarith
  then have "\<bar>y * 60\<bar> = y * 60" by simp
  with rnd_rel [OF assms, of "y * 60"] have ew: "\<bar>w - y * 60\<bar> \<le> y * 60 / 2 ^ 53"
    by (simp only: w_def)
  have "\<bar>w - x * 60\<bar> \<le> x * 60 * (3 / 2 ^ 53)"
    using ex ew x0 y0 unfolding two_powers by linarith
  moreover have "words_duration rnd n = w"
    by (simp add: words_duration_def w_def y_def x_def)
  moreover have "of_nat n * (2 / 5) = x * 60" by (simp add: x_def)
  ultimately show ?thesis by (simp only:)
qed

lemma float_estimates_close:
  assumes "float_rounding rnd"
  shows "\<bar>sum_list (map cap_duration (generate_captions rnd S k))
           - words_duration rnd (length (str_split S))\<bar>
         \<le> of_nat (length (str_split S)) / 2 ^ 52"
proof -
  define n :: rat where "n = of_nat (length (str_split S))"
  have n0: "0 \<le> n" by (simp add: n_def)
  have a: "\<bar>sum_list (map cap_duration (generate_captions rnd S k)) - n * (2 / 5)\<bar>
             \<le> n * (2 / 5) / 2 ^ 53"
    unfolding n_def by (rule float_caption_sum [OF assms])
  have b: "\<bar>words_duration rnd (length (str_split S)) - n * (2 / 5)\<bar> \<le> n * (2 / 5) * (3 / 2 ^ 53)"
    unfolding n_def by (rule float_words_duration [OF assms])
  have "\<bar>sum_list (map cap_duration (generate_captions rnd S k))
           - words_duration rnd (length (str_split S))\<bar> \<le> n / 2 ^ 52"
    using a b n0 unfolding two_powers by linarith
  then show ?thesis by (simp only: n_def)
qed

lemma estimate_duration_speed_one:
  assumes "float_rounding rnd"
  shows "estimate_duration rnd S 1 = Inr (words_duration rnd (length (str_split S)))"
  by (simp add: estimate_duration_def Let_def words_duration_def rnd_idem [OF assms])

lemma pow_growth:
  fixes u :: rat
  assumes "0 \<le> u" "of_nat k * u \<le> 1 / 2"
  shows "(1 + u) ^ k \<le> 1 + 2 * of_nat k * u"
  using assms(2)
proof (induction k)
  case 0
  then show ?case by simp
next
  case (Suc k)
  have ku: "of_nat k * u \<le> 1 / 2"
  proof -
    have "of_nat k * u \<le> of_nat (Suc k) * u"
      using assms(1) by (intro mult_right_mono) simp_all
    with Suc.prems show ?thesis by linarith
  qed
  from Suc.IH [OF ku] have ih: "(1 + u) ^ k \<le> 1 + 2 * of_nat k * u" .
  have "(1 + u) ^ Suc k = (1 + u) * (1 + u) ^ k" by simp
  also have "\<dots> \<le> (1 + u) * (1 + 2 * of_nat k * u)"
    using ih assms(1) by (intro mult_left_mono) simp_all
  also have "\<dots> = 1 + 2 * of_nat k * u + u + (2 * (of_nat k * u)) * u"
    by (simp add: algebra_simps)
  also have "\<dots> \<le> 1 + 2 * of_nat k * u + u + 1 * u"
  proof -
    have "(2 * (of_nat k * u)) * u \<le> 1 * u"
      using ku assms(1) by (intro mult_right_mono) simp_all
    then show ?thesis by linarith
  qed
  also have "\<dots> = 1 + 2 * of_nat (Suc k) * u" by (simp add: algebra_simps)
  finally show ?case .
qed

lemma running_step:
  fixes t A q u x dur c a :: rat
  assumes u0: "0 \<le> u" and A0: "0 \<le> A" and c0: "0 \<le> c" and q: "1 + u \<le> q"
    and t: "\<bar>t - A\<bar> \<le> A * (q - 1)"
    and d: "\<bar>dur - c\<bar> \<le> c * u"
    and r: "\<bar>r - (t + dur)\<bar> \<le> \<bar>t + dur\<bar> * u"
  shows "\<bar>r - (A + c)\<bar> \<le> (A + c) * (q * (1 + u) - 1)"
proof -
  have "c * u \<le> c * (q - 1)"
    using c0 q by (intro mult_left_mono) simp_all
  with t d have x: "\<bar>t + dur - (A + c)\<bar> \<le> (A + c) * (q - 1)"
    by (simp add: algebra_simps)
  then have "\<bar>t + dur\<bar> \<le> (A + c) + (A + c) * (q - 1)" using A0 c0 by linarith
  then have ax: "\<bar>t + dur\<bar> \<le> (A + c) * q" by (simp add: algebra_simps)
  have "\<bar>t + dur\<bar> * u \<le> (A + c) * q * u"
    using ax u0 by (intro mult_right_mono) simp_all
  with r have "\<bar>r - (t + dur)\<bar> \<le> (A + c) * q * u" by linarith
  with x have "\<bar>r - (A + c)\<bar> \<le> (A + c) * (q - 1) + (A + c) * q * u" by linarith
  also have "\<dots> = (A + c) * (q * (1 + u) - 1)" by (simp add: algebra_simps)
  finally show ?thesis .
qed

lemma running_total_bound:
  assumes f: "float_rounding rnd" and "cs \<noteq> []" "0 \<le> A" "1 + 1 / 2 ^ 53 \<le> q"
    "\<bar>t - A\<bar> \<le> A * (q - 1)"
  shows "\<bar>cap_end (last (time_captions rnd (5 / 2) t cs))
           - (A + of_nat (sum_list (map (\<lambda>c. length (str_split c)) cs)) * (2 / 5))\<bar>
         \<le> (A + of_nat (sum_list (map (\<lambda>c. length (str_split c)) cs)) * (2 / 5))
             * (q * (1 + 1 / 2 ^ 53) ^ length cs - 1)"
  using assms(2-)
proof (induction cs arbitrary: t A q)
  case Nil
  then show ?case by simp
next
  case (Cons c cs)
  define u :: rat where "u = 1 / 2 ^ 53"
  define w :: rat where "w = of_nat (length (str_split c)) * (2 / 5)"
  define dur where "dur = rnd (of_nat (length (str_split c)) / (5 / 2))"
  define r where "r = rnd (t + dur)"
  have u0: "0 \<le> u" by (simp add: u_def)
  have w0: "0 \<le> w" by (simp add: w_def)
  have dw: "dur = rnd w" by (simp add: dur_def w_def)
  have "\<bar>rnd w - w\<bar> \<le> \<bar>w\<bar> / 2 ^ 53" by (rule rnd_rel [OF f])
  then have d: "\<bar>dur - w\<bar> \<le> w * u" using w0 by (simp add: dw u_def)
  have "\<bar>rnd (t + dur) - (t + dur)\<bar> \<le> \<bar>t + dur\<bar> / 2 ^ 53" by (rule rnd_rel [OF f])
  then have rr: "\<bar>r - (t + dur)\<bar> \<le> \<bar>t + dur\<bar> * u" by (simp add: r_def u_def)
  have q: "1 + u \<le> q" using Cons.prems(3) by (simp add: u_def)
  have tA: "\<bar>t - A\<bar> \<le> A * (q - 1)" by (rule Cons.prems(4))
  have step: "\<bar>r - (A + w)\<bar> \<le> (A + w) * (q * (1 + u) - 1)"
    by (rule running_step [OF u0 Cons.prems(2) w0 q tA d rr])
  have tc: "time_captions rnd (5 / 2) t (c # cs)
              = \<lparr>cap_text = c, cap_start = t, cap_duration = dur, cap_end = r\<rparr>
                # time_captions rnd (5 / 2) r cs"
    by (simp add: Let_def dur_def r_def)
  show ?case
  proof (cases cs)
    case Nil
    have "cap_end (last (time_captions rnd (5 / 2) t (c # cs))) = r"
      by (simp only: tc) (simp add: Nil)
    moreover have "of_nat (sum_list (map (\<lambda>c. length (str_split c)) (c # cs))) * (2 / 5) = w"
      by (simp add: Nil w_def)
    moreover have "q * (1 + 1 / 2 ^ 53) ^ length (c # cs) = q * (1 + u)"
      by (simp add: Nil u_def)
    ultimately show ?thesis using step by (simp only:)
  next
    case (Cons c' cs')
    then have ne: "cs \<noteq> []" by simp
    have A': "0 \<le> A + w" using Cons.prems(2) w0 by simp
    have "1 \<le> q" using q u0 by linarith
    then have "1 + u \<le> q * (1 + u)"
      using u0 by (intro mult_right_mono [of 1 q "1 + u", simplified]) simp_all
    then have q': "1 + 1 / 2 ^ 53 \<le> q * (1 + u)" by (simp add: u_def)
    note ih = Cons.IH [OF ne A' q' step]
    have l: "cap_end (last (time_captions rnd (5 / 2) t (c # cs)))
               = cap_end (last (time_captions rnd (5 / 2) r cs))"
    proof -
      have "length (time_captions rnd (5 / 2) r cs) \<noteq> 0"
        using ne by (simp only: time_captions_length) simp
      then have "time_captions rnd (5 / 2) r cs \<noteq> []" by simp
      then show ?thesis by (simp only: tc) simp
    qed
    have s: "A + of_nat (sum_list (map (\<lambda>c. length (str_split c)) (c # cs))) * (2 / 5)
               = A + w + of_nat (sum_list (map (\<lambda>c. length (str_split c)) cs)) * (2 / 5)"
      by (simp add: w_def algebra_simps)
    have p: "q * (1 + 1 / 2 ^ 53) ^ length (c # cs) = q * (1 + u) * (1 + 1 / 2 ^ 53) ^ length cs"
      by (simp add: u_def)
    show ?thesis using ih by (simp only: l s p)
  qed
qed

lemma running_total_foldl:
  "cs \<noteq> [] \<Longrightarrow>
     cap_end (last (time_captions rnd wps t cs))
       = foldl (\<lambda>total duration. rnd (total + duration)) t
           (map cap_duration (time_captions rnd wps t cs))"
proof (induction cs arbitrary: t)
  case Nil
  then show ?case by simp
next
  case (Cons c cs)
  show ?case
  proof (cases cs)
    case Nil
    then show ?thesis by (simp add: Let_def)
  next
    case (Cons c' cs')
    then have ne: "cs \<noteq> []" by simp
    define r where "r = rnd (t + rnd (of_nat (length (str_split c)) / wps))"
    have "length (time_captions rnd wps r cs) \<noteq> 0"
      using ne by (simp only: time_captions_length) simp
    then have ne2: "time_captions rnd wps r cs \<noteq> []" by simp
    from Cons.IH [OF ne, of r] ne2 show ?thesis by (simp add: Let_def r_def)
  qed
qed

lemma foldl_plus_sum_list:
  "foldl (\<lambda>total duration. total + duration) (a :: rat) xs = a + sum_list xs"
  by (induction xs arbitrary: a) simp_all

lemma caption_texts_word_total:
  "sum_list (map (\<lambda>c. length (str_split c)) (caption_texts S k)) = length (str_split S)"
proof -
  have "sum_list (map (\<lambda>c. length (cap_words c)) (generate_captions id S k))
          = sum_list (map (\<lambda>c. length (str_split c)) (map cap_text (generate_captions id S k)))"
    by (simp add: cap_words_def comp_def)
  then show ?thesis by (simp only: captions_word_total generate_captions_text)
qed

lemma caption_texts_nonempty:
  assumes "str_split S \<noteq> []"
  shows "caption_texts S k \<noteq> []"
proof
  assume "caption_texts S k = []"
  with caption_texts_word_total [of S k] have "length (str_split S) = 0" by simp
  with assms show False by simp
qed

lemma generate_captions_nonempty:
  assumes "str_split S \<noteq> []"
  shows "generate_captions rnd S k \<noteq> []"
proof -
  have "length (generate_captions rnd S k) = length (caption_texts S k)"
    by (simp add: generate_captions_def Let_def time_captions_length)
  with caption_texts_nonempty [OF assms, of k] show ?thesis by auto
qed

lemma exact_running_total:
  assumes "str_split S \<noteq> []"
  shows "cap_end (last (generate_captions id S k)) = of_nat (length (str_split S)) / 150 * 60"
proof -
  have "cap_end (last (generate_captions id S k))
          = foldl (\<lambda>total duration. id (total + duration)) 0
              (map cap_duration (generate_captions id S k))"
    unfolding generate_captions_def Let_def
    by (rule running_total_foldl [OF caption_texts_nonempty [OF assms]])
  also have "\<dots> = sum_list (map cap_duration (generate_captions id S k))"
    by (simp add: foldl_plus_sum_list)
  finally show ?thesis by (simp only: exact_caption_sum)
qed

lemma float_running_total:
  assumes f: "float_rounding rnd" and ne: "str_split S \<noteq> []"
  shows "\<bar>cap_end (last (generate_captions rnd S k)) - of_nat (length (str_split S)) * (2 / 5)\<bar>
         \<le> of_nat (length (str_split S)) * (2 / 5)
             * ((1 + 1 / 2 ^ 53) ^ Suc (length (generate_captions rnd S k)) - 1)"
proof -
  have g: "generate_captions rnd S k = time_captions rnd (5 / 2) 0 (caption_texts S k)"
    by (simp add: generate_captions_def Let_def rnd_consts [OF f])
  have l: "length (generate_captions rnd S k) = length (caption_texts S k)"
    by (simp only: g time_captions_length)
  have "\<bar>(0::rat) - 0\<bar> \<le> 0 * ((1 + 1 / 2 ^ 53) - 1)" by simp
  from running_total_bound [OF f caption_texts_nonempty [OF ne] _ _ this, of k]
  show ?thesis by (simp add: g l caption_texts_word_total time_captions_length)
qed

lemma float_running_close:
  assumes f: "float_rounding rnd" and ne: "str_split S \<noteq> []"
    and m: "length (generate_captions rnd S k) < 2 ^ 52"
  shows "\<bar>cap_end (last (generate_captions rnd S k)) - words_duration rnd (length (str_split S))\<bar>
         \<le> of_nat (length (str_split S)) * of_nat (length (generate_captions rnd S k) + 3) / 2 ^ 53"
proof -
  define n :: rat where "n = of_nat (length (str_split S))"
  define m :: nat where "m = length (generate_captions rnd S k)"
  define u :: rat where "u = 1 / 2 ^ 53"
  define e where "e = cap_end (last (generate_captions rnd S k))"
  define wd where "wd = words_duration rnd (length (str_split S))"
  have n0: "0 \<le> n" by (simp add: n_def)
  have u0: "0 \<le> u" by (simp add: u_def)
  have "Suc m \<le> 2 ^ 52" using m by (simp add: m_def)
  then have "(of_nat (Suc m) :: rat) \<le> of_nat (2 ^ 52)" by (simp only: of_nat_le_iff)
  then have sm: "(of_nat (Suc m) :: rat) \<le> 2 ^ 52" by simp
  have "of_nat (Suc m) * u \<le> 2 ^ 52 * u"
    using sm u0 by (intro mult_right_mono)
  also have "\<dots> = 1 / 2" by (simp add: u_def)
  finally have "(1 + u) ^ Suc m \<le> 1 + 2 * of_nat (Suc m) * u"
    by (rule pow_growth [OF u0])
  then have p: "(1 + u) ^ Suc m - 1 \<le> 2 * of_nat (Suc m) * u" by linarith
  have a: "\<bar>e - n * (2 / 5)\<bar> \<le> n * (2 / 5) * ((1 + u) ^ Suc m - 1)"
    unfolding e_def n_def m_def u_def by (rule float_running_total [OF f ne])
  have "n * (2 / 5) * ((1 + u) ^ Suc m - 1) \<le> n * (2 / 5) * (2 * of_nat (Suc m) * u)"
    using p n0 by (intro mult_left_mono) simp_all
  with a have a': "\<bar>e - n * (2 / 5)\<bar> \<le> n * (2 / 5) * (2 * of_nat (Suc m) * u)" by linarith
  have b: "\<bar>wd - n * (2 / 5)\<bar> \<le> n * (2 / 5) * (3 * u)"
    using float_words_duration [OF f, of "length (str_split S)"]
    by (simp add: wd_def n_def u_def)
  have "\<bar>e - wd\<bar> \<le> n * (2 / 5) * (2 * of_nat (Suc m) * u) + n * (2 / 5) * (3 * u)"
    using a' b by linarith
  also have "\<dots> = (n * u) * ((2 / 5) * (2 * of_nat m + 5))"
    by (simp add: algebra_simps)
  also have "\<dots> \<le> (n * u) * (of_nat m + 3)"
  proof (rule mult_left_mono)
    have "(0::rat) \<le> of_nat m" by simp
    then show "(2 / 5) * (2 * of_nat m + 5) \<le> (of_nat m + 3 :: rat)"
      by (simp add: algebra_simps)
    show "0 \<le> n * u" using n0 u0 by simp
  qed
  also have "\<dots> = n * of_nat (m + 3) / 2 ^ 53" by (simp add: u_def)
  finally show ?thesis by (simp only: e_def wd_def n_def m_def)
qed

lemma float_running_foldl:
  assumes f: "float_rounding rnd" and ne: "str_split S \<noteq> []"
  shows "cap_end (last (generate_captions rnd S k))
           = foldl (\<lambda>total duration. rnd (total + duration)) 0
               (map cap_duration (generate_captions rnd S k))"
  unfolding generate_captions_def Let_def
  by (rule running_total_foldl [OF caption_texts_nonempty [OF ne]])

lemma fox_length: "length (str_split fox_script) = 9"
  by (simp add: fox_script_def lit_def str_split_def isspace_def)

lemma fl64_fox_values:
  "fl64 (fl64 (3 / 50) * 60) \<noteq> 2 + fl64 (8 / 5)"
  "fl64 (fl64 (3 / 50) * 60) \<noteq> fl64 (18 / 5)"
  by code_simp+

lemma fox_estimate_fl64:
  "words_duration fl64 (length (str_split fox_script)) = fl64 (fl64 (3 / 50) * 60)"
  by (simp add: fox_length words_duration_def)

text \<open>
  C7, as stated, fails in the code's binary64 arithmetic: for the nine-word script with
  \<open>k = 5\<close> the caption durations 2.0 and 1.6 add up to 3.6 (also as the exact sum of the
  two floats), while \<open>(9 / 150) * 60\<close> is 3.5999999999999996.
\<close>

theorem duration_estimates_counterexample:
  "Inr (sum_list (map cap_duration (generate_captions fl64 fox_script 5)))
     \<noteq> estimate_duration fl64 fox_script 1
   \<and> Inr (cap_end (last (generate_captions fl64 fox_script 5)))
     \<noteq> estimate_duration fl64 fox_script 1"
  by (simp add: estimate_duration_speed_one [OF float_rounding_fl64] fox_estimate_fl64
      fox_captions_fl64 fl64_fox_values [symmetric])

text \<open>
  C7, amended. In exact arithmetic the three estimates are the same number: the caption
  durations add up to \<open>len(S.split()) / 150 * 60\<close>, which is also the end of the last
  caption and what estimate\_duration (speed 1) and optimize\_for\_platform compute. In
  float arithmetic the two whole-script estimates are the same float, and the caption
  durations agree with them up to rounding only: the exact sum of the float durations
  differs from them by at most \<open>n / 2^52\<close> seconds, and the running total that the code
  computes in floats, the end of the last caption, which is the durations added from left
  to right, by at most \<open>n * (m + 3) / 2^53\<close> seconds, for a script of \<open>n\<close> words in
  \<open>m < 2^52\<close> captions.
\<close>

theorem duration_estimates_agree:
  "sum_list (map cap_duration (generate_captions id S k)) = of_nat (length (str_split S)) / 150 * 60
   \<and> estimate_duration id S 1 = Inr (of_nat (length (str_split S)) / 150 * 60)
   \<and> words_duration id (length (str_split S)) = of_nat (length (str_split S)) / 150 * 60
   \<and> (str_split S \<noteq> [] \<longrightarrow>
        cap_end (last (generate_captions id S k)) = of_nat (length (str_split S)) / 150 * 60)
   \<and> (float_rounding rnd \<longrightarrow>
        estimate_duration rnd S 1 = Inr (words_duration rnd (length (str_split S))) \<and>
        \<bar>sum_list (map cap_duration (generate_captions rnd S k))
           - words_duration rnd (length (str_split S))\<bar>
          \<le> of_nat (length (str_split S)) / 2 ^ 52 \<and>
        (str_split S \<noteq> [] \<longrightarrow>
           cap_end (last (generate_captions rnd S k))
             = foldl (\<lambda>total duration. rnd (total + duration)) 0
                 (map cap_duration (generate_captions rnd S k)) \<and>
           (length (generate_captions rnd S k) < 2 ^ 52 \<longrightarrow>
              \<bar>cap_end (last (generate_captions rnd S k))
                 - words_duration rnd (length (str_split S))\<bar>
                \<le> of_nat (length (str_split S))
                    * of_nat (length (generate_captions rnd S k) + 3) / 2 ^ 53)))"
proof (intro conjI impI)
  show "sum_list (map cap_duration (generate_captions id S k))
          = of_nat (length (str_split S)) / 150 * 60"
    by (rule exact_caption_sum)
  show "estimate_duration id S 1 = Inr (of_nat (length (str_split S)) / 150 * 60)"
    by (simp add: estimate_duration_def words_duration_def)
  show "words_duration id (length (str_split S)) = of_nat (length (str_split S)) / 150 * 60"
    by (simp add: words_duration_def)
next
  assume "str_split S \<noteq> []"
  then show "cap_end (last (generate_captions id S k)) = of_nat (length (str_split S)) / 150 * 60"
    by (rule exact_running_total)
next
  assume f: "float_rounding rnd"
  show "estimate_duration rnd S 1 = Inr (words_duration rnd (length (str_split S)))"
    by (rule estimate_duration_speed_one [OF f])
  show "\<bar>sum_list (map cap_duration (generate_captions rnd S k))
           - words_duration rnd (length (str_split S))\<bar>
          \<le> of_nat (length (str_split S)) / 2 ^ 52"
    by (rule float_estimates_close [OF f])
next
  assume f: "float_rounding rnd" and ne: "str_split S \<noteq> []"
  show "cap_end (last (generate_captions rnd S k))
          = foldl (\<lambda>total duration. rnd (total + duration)) 0
              (map cap_duration (generate_captions rnd S k))"
    by (rule float_running_foldl [OF f ne])
next
  assume f: "float_rounding rnd" and ne: "str_split S \<noteq> []"
    and m: "length (generate_captions rnd S k) < 2 ^ 52"
  show "\<bar>cap_end (last (generate_captions rnd S k)) - words_duration rnd (length (str_split S))\<bar>
          \<le> of_nat (length (str_split S))
              * of_nat (length (generate_captions rnd S k) + 3) / 2 ^ 53"
    by (rule float_running_close [OF f ne m])
qed

theorem duration_estimates_agree_witness:
  "float_rounding fl64
   \<and> str_split fox_script \<noteq> []
   \<and> length (generate_captions fl64 fox_script 5) < 2 ^ 52
   \<and> estimate_duration fl64 fox_script 1 = Inr (words_duration fl64 (length (str_split fox_script)))
   \<and> \<bar>sum_list (map cap_duration (generate_captions fl64 fox_script 5))
         - words_duration fl64 (length (str_split fox_script))\<bar>
       \<le> of_nat (length (str_split fox_script)) / 2 ^ 52
   \<and> \<bar>cap_end (last (generate_captions fl64 fox_script 5))
         - words_duration fl64 (length (str_split fox_script))\<bar>
       \<le> of_nat (length (str_split fox_script))
           * of_nat (length (generate_captions fl64 fox_script 5) + 3) / 2 ^ 53
   \<and> sum_list (map cap_duration (generate_captions id fox_script 5)) = 18 / 5
   \<and> cap_end (last (generate_captions id fox_script 5)) = 18 / 5
   \<and> estimate_duration id fox_script 1 = Inr (18 / 5)"
proof -
  note t = duration_estimates_agree [of fox_script 5 fl64]
  note n = fox_length
  have ne: "str_split fox_script \<noteq> []" using n by auto
  have m: "length (generate_captions fl64 fox_script 5) < 2 ^ 52"
    by (simp add: fox_captions_fl64)
  have 1: "estimate_duration fl64 fox_script 1
             = Inr (words_duration fl64 (length (str_split fox_script)))"
    using t float_rounding_fl64 by blast
  have 2: "\<bar>sum_list (map cap_duration (generate_captions fl64 fox_script 5))
         - words_duration fl64 (length (str_split fox_script))\<bar>
       \<le> of_nat (length (str_split fox_script)) / 2 ^ 52"
    using t float_rounding_fl64 by blast
  have 3: "\<bar>cap_end (last (generate_captions fl64 fox_script 5))
         - words_duration fl64 (length (str_split fox_script))\<bar>
       \<le> of_nat (length (str_split fox_script))
           * of_nat (length (generate_captions fl64 fox_script 5) + 3) / 2 ^ 53"
    using t float_rounding_fl64 ne m by blast
  have 4: "sum_list (map cap_duration (generate_captions id fox_script 5)) = 18 / 5"
    using t by (simp add: n)
  have "cap_end (last (generate_captions id fox_script 5))
          = of_nat (length (str_split fox_script)) / 150 * 60"
    using t ne by blast
  then have 5: "cap_end (last (generate_captions id fox_script 5)) = 18 / 5"
    by (simp add: n)
  have 6: "estimate_duration id fox_script 1 = Inr (18 / 5)"
    using t by (simp add: n)
  from float_rounding_fl64 ne m 1 2 3 4 5 6 show ?thesis by blast
qed

section \<open>Properties of in, replace and strip\<close>

lemma starts_with_iff: "starts_with p s \<longleftrightarrow> (\<exists>b. s = p @ b)"
  by (induction p s rule: starts_with.induct) auto

lemma str_contains_iff: "str_contains p s \<longleftrightarrow> (\<exists>a b. s = a @ p @ b)"
proof (induction s)
  case Nil
  then show ?case by auto
next
  case (Cons x xs)
  show ?case
  proof
    assume "str_contains p (x # xs)"
    then consider "starts_with p (x # xs)" | "str_contains p xs" by auto
    then show "\<exists>a b. x # xs = a @ p @ b"
    proof cases
      case 1
      then obtain b where "x # xs = p @ b" using starts_with_iff by blast
      then have "x # xs = [] @ p @ b" by simp
      then show ?thesis by blast
    next
      case 2
      then obtain a b where "xs = a @ p @ b" using Cons.IH by blast
      then have "x # xs = (x # a) @ p @ b" by simp
      then show ?thesis by blast
    qed
  next
    assume "\<exists>a b. x # xs = a @ p @ b"
    then obtain a b where ab: "x # xs = a @ p @ b" by blast
    show "str_contains p (x # xs)"
    proof (cases a)
      case Nil
      with ab have "starts_with p (x # xs)" using starts_with_iff by fastforce
      then show ?thesis by simp
    next
      case (Cons y ys)
      with ab have "xs = ys @ p @ b" by simp
      then have "str_contains p xs" using Cons.IH by blast
      then show ?thesis by simp
    qed
  qed
qed

lemma str_contains_part:
  "s = l @ m @ r \<Longrightarrow> str_contains p m \<Longrightarrow> str_contains p s"
proof -
  assume s: "s = l @ m @ r" and "str_contains p m"
  then obtain a b where "m = a @ p @ b" using str_contains_iff by blast
  with s have "s = (l @ a) @ p @ (b @ r)" by simp
  then show ?thesis using str_contains_iff by blast
qed

lemma str_strip_part: "\<exists>l r. s = l @ str_strip s @ r"
proof -
  define m where "m = dropWhile isspace s"
  have 1: "s = takeWhile isspace s @ m" by (simp add: m_def)
  have "rev m = takeWhile isspace (rev m) @ dropWhile isspace (rev m)" by simp
  then have "rev (rev m) = rev (takeWhile isspace (rev m) @ dropWhile isspace (rev m))"
    by (rule arg_cong)
  then have 2: "m = rev (dropWhile isspace (rev m)) @ rev (takeWhile isspace (rev m))"
    by (simp only: rev_rev_ident rev_append)
  have "s = takeWhile isspace s @ str_strip s @ rev (takeWhile isspace (rev m))"
    using 1 2 by (simp add: str_strip_def m_def)
  then show ?thesis by blast
qed

lemma str_strip_no_new:
  "\<not> str_contains p s \<Longrightarrow> \<not> str_contains p (str_strip s)"
  using str_strip_part [of s] str_contains_part by blast

lemma str_strip_ends:
  "str_strip s \<noteq> [] \<Longrightarrow> \<not> isspace (hd (str_strip s)) \<and> \<not> isspace (last (str_strip s))"
proof -
  define m where "m = dropWhile isspace s"
  define r where "r = dropWhile isspace (rev m)"
  assume ne: "str_strip s \<noteq> []"
  have st: "str_strip s = rev r" by (simp add: str_strip_def r_def m_def)
  with ne have r: "r \<noteq> []" by simp
  then have m: "m \<noteq> []" by (auto simp: r_def)
  have "\<not> isspace (hd r)" using r unfolding r_def by (rule hd_dropWhile)
  then have l: "\<not> isspace (last (str_strip s))" using r by (simp add: st last_rev)
  have "rev m = takeWhile isspace (rev m) @ r" by (simp add: r_def)
  then have "last (rev m) = last r" using r by (metis last_appendR)
  then have "last r = hd m" using m by (simp add: last_rev)
  moreover have "\<not> isspace (hd m)" using m unfolding m_def by (rule hd_dropWhile)
  ultimately have "\<not> isspace (hd (str_strip s))" using r by (simp add: st hd_rev)
  with l show ?thesis by blast
qed

lemma str_strip_fixed:
  assumes "s = [] \<or> (\<not> isspace (hd s) \<and> \<not> isspace (last s))"
  shows "str_strip s = s"
proof (cases s)
  case Nil
  then show ?thesis by (simp add: str_strip_def)
next
  case (Cons x xs)
  with assms have h: "\<not> isspace (hd s)" and l: "\<not> isspace (last s)" by simp_all
  from h Cons have 1: "dropWhile isspace s = s" by simp
  obtain y ys where r: "rev s = y # ys" using Cons by (cases "rev s") simp_all
  then have "hd (rev s) = y" by simp
  moreover have "hd (rev s) = last s" using Cons by (simp add: hd_rev)
  ultimately have "\<not> isspace y" using l by simp
  then have 2: "dropWhile isspace (rev s) = rev s" by (simp only: r dropWhile.simps if_False)
  show ?thesis by (simp add: str_strip_def 1 2)
qed

lemma collapse_newlines_none: "\<not> str_contains [10, 10, 10] (collapse_newlines t)"
  by (induction t rule: collapse_newlines.induct) (simp add: collapse_newlines.simps)

lemma collapse_spaces_none: "\<not> str_contains [32, 32] (collapse_spaces t)"
  by (induction t rule: collapse_spaces.induct) (simp add: collapse_spaces.simps)

lemma collapse_newlines_fixed: "\<not> str_contains [10, 10, 10] t \<Longrightarrow> collapse_newlines t = t"
  by (simp add: collapse_newlines.simps)

lemma collapse_spaces_fixed: "\<not> str_contains [32, 32] t \<Longrightarrow> collapse_spaces t = t"
  by (simp add: collapse_spaces.simps)

lemma newline_run_kept:
  "starts_with (replicate k 10) (str_replace [32, 32] [32] s) \<Longrightarrow>
     starts_with (replicate k 10) (s :: pystr)"
proof (induction k arbitrary: s)
  case 0
  then show ?case by simp
next
  case (Suc k)
  show ?case
  proof (cases s)
    case Nil
    with Suc.prems show ?thesis by (simp add: str_replace_Nil)
  next
    case (Cons x xs)
    show ?thesis
    proof (cases "starts_with [32, 32] (x # xs)")
      case True
      then have "str_replace [32, 32] [32] s
                   = [32] @ str_replace [32, 32] [32] (drop (length [32, 32 :: nat]) (x # xs))"
        using Cons str_replace_hit [of "[32, 32]" x xs "[32]"] by simp
      with Suc.prems show ?thesis by simp
    next
      case False
      then have "str_replace [32, 32] [32] s = x # str_replace [32, 32] [32] xs"
        using Cons str_replace_miss [of "[32, 32]" x xs "[32]"] by simp
      with Suc.prems have "x = 10" "starts_with (replicate k 10) (str_replace [32, 32] [32] xs)"
        by simp_all
      with Suc.IH [of xs] Cons show ?thesis by simp
    qed
  qed
qed

lemma three_newlines: "[10, 10, 10 :: nat] = replicate 3 10"
  by (simp add: eval_nat_numeral)

lemma replace_spaces_keeps:
  "\<not> str_contains [10, 10, 10] (s :: pystr) \<Longrightarrow> \<not> str_contains [10, 10, 10] (str_replace [32, 32] [32] s)"
proof (induction "length s" arbitrary: s rule: less_induct)
  case less
  show ?case
  proof (cases s)
    case Nil
    then show ?thesis by (simp add: str_replace_Nil)
  next
    case (Cons x xs)
    show ?thesis
    proof (cases "starts_with [32, 32] (x # xs)")
      case True
      let ?d = "drop 2 s"
      have r: "str_replace [32, 32] [32] s = 32 # str_replace [32, 32] [32] ?d"
        using True Cons str_replace_hit [of "[32, 32]" x xs "[32]"] by simp
      have "s = take 2 s @ ?d @ []" by simp
      then have "\<not> str_contains [10, 10, 10] ?d"
        using less.prems str_contains_part by blast
      moreover have "length ?d < length s" using Cons by simp
      ultimately have "\<not> str_contains [10, 10, 10] (str_replace [32, 32] [32] ?d)"
        by (rule less.hyps [rotated])
      then show ?thesis by (simp add: r)
    next
      case False
      have r: "str_replace [32, 32] [32] s = x # str_replace [32, 32] [32] xs"
        using False Cons str_replace_miss [of "[32, 32]" x xs "[32]"] by simp
      from less.prems Cons have nx: "\<not> str_contains [10, 10, 10] xs"
        and ns: "\<not> starts_with [10, 10, 10] s" by simp_all
      have "\<not> str_contains [10, 10, 10] (str_replace [32, 32] [32] xs)"
        using less.hyps [of xs] nx Cons by simp
      moreover have "\<not> starts_with [10, 10, 10] (str_replace [32, 32] [32] s)"
        using ns newline_run_kept [of 3 s] by (auto simp only: three_newlines)
      ultimately show ?thesis by (simp add: r)
    qed
  qed
qed

lemma collapse_spaces_keeps:
  "\<not> str_contains [10, 10, 10] t \<Longrightarrow> \<not> str_contains [10, 10, 10] (collapse_spaces t)"
proof (induction t rule: collapse_spaces.induct)
  case (1 t)
  show ?case
  proof (cases "str_contains [32, 32] t")
    case True
    then have "collapse_spaces t = collapse_spaces (str_replace [32, 32] [32] t)"
      by (subst collapse_spaces.simps) simp
    moreover have "\<not> str_contains [10, 10, 10] (collapse_spaces (str_replace [32, 32] [32] t))"
      using "1.IH" [OF True] replace_spaces_keeps [OF "1.prems"] by blast
    ultimately show ?thesis by simp
  next
    case False
    then show ?thesis using "1.prems" by (simp add: collapse_spaces_fixed)
  qed
qed

section \<open>The claim about \_clean\_text\<close>

lemma clean_text_no_spaces: "\<not> str_contains [32, 32] (clean_text t)"
  unfolding clean_text_def by (rule str_strip_no_new) (rule collapse_spaces_none)

lemma clean_text_no_newlines: "\<not> str_contains [10, 10, 10] (clean_text t)"
  unfolding clean_text_def
  by (rule str_strip_no_new) (rule collapse_spaces_keeps, rule collapse_newlines_none)

lemma clean_text_ends:
  "clean_text t \<noteq> [] \<Longrightarrow> \<not> isspace (hd (clean_text t)) \<and> \<not> isspace (last (clean_text t))"
  unfolding clean_text_def by (rule str_strip_ends)

lemma clean_text_again: "clean_text (clean_text t) = clean_text t"
proof -
  let ?u = "clean_text t"
  have 1: "collapse_newlines ?u = ?u"
    by (rule collapse_newlines_fixed) (rule clean_text_no_newlines)
  have 2: "collapse_spaces ?u = ?u"
    by (rule collapse_spaces_fixed) (rule clean_text_no_spaces)
  have 3: "str_strip ?u = ?u"
    using clean_text_ends [of t] by (intro str_strip_fixed) blast
  show ?thesis by (subst (1) clean_text_def) (simp only: 1 2 3)
qed

text \<open>
  C9. \_clean\_text is idempotent, and its result has no two consecutive spaces, no three
  consecutive newlines, and neither starts nor ends with whitespace.
\<close>

theorem clean_text_idempotent:
  "clean_text (clean_text t) = clean_text t
   \<and> \<not> str_contains (lit ''  '') (clean_text t)
   \<and> \<not> str_contains [10, 10, 10] (clean_text t)
   \<and> (clean_text t \<noteq> [] \<longrightarrow>
        \<not> isspace (hd (clean_text t)) \<and> \<not> isspace (last (clean_text t)))"
proof -
  have "lit ''  '' = [32, 32]" by (simp add: lit_def)
  then show ?thesis
    using clean_text_again clean_text_no_spaces clean_text_no_newlines clean_text_ends
    by (simp only:) blast
qed

lemma clean_text_example:
  "clean_text [32, 32, 97, 10, 10, 10, 10, 98, 32, 32, 32, 99, 10, 32]
     = [97, 10, 10, 98, 32, 99]"
  by (simp add: clean_text_def collapse_newlines.simps collapse_spaces.simps str_replace.simps
      str_strip_def isspace_def)

theorem clean_text_idempotent_witness:
  "clean_text [32, 32, 97, 10, 10, 10, 10, 98, 32, 32, 32, 99, 10, 32] \<noteq> []
   \<and> clean_text (clean_text [32, 32, 97, 10, 10, 10, 10, 98, 32, 32, 32, 99, 10, 32])
       = clean_text [32, 32, 97, 10, 10, 10, 10, 98, 32, 32, 32, 99, 10, 32]
   \<and> \<not> isspace (hd (clean_text [32, 32, 97, 10, 10, 10, 10, 98, 32, 32, 32, 99, 10, 32]))
   \<and> \<not> isspace (last (clean_text [32, 32, 97, 10, 10, 10, 10, 98, 32, 32, 32, 99, 10, 32]))"
  using clean_text_idempotent [of "[32, 32, 97, 10, 10, 10, 10, 98, 32, 32, 32, 99, 10, 32]"]
  by (simp add: clean_text_example)

section \<open>The fallback of the video step\<close>






















section \<open>The retry of generate\_summary\<close>

lemma generate_summary_body_returns:
  "\<exists>v. generate_summary_body json_loads response = Returned v"
  by (simp add: generate_summary_body_def split: api_outcome.split option.split)

lemma retry_loop_returned:
  "f attempt_number = Returned v \<Longrightarrow>
     retry_loop (Suc attempts_left) attempt_number wait f = (Inr v, attempt_number, [])"
  by simp

text \<open>The decorator alone does retry: a function that always raises is tried three times.\<close>

lemma retry_loop_always_raises:
  "retry_loop 3 1 (wait_exponential 1 4 10) (\<lambda>n. Raised)
     = (Inl RetryError, 3, [4, 4])"
  by (simp add: eval_nat_numeral wait_exponential_def)

text \<open>
  C8 against the code. The body of generate\_summary catches every exception of the
  service call and returns \<open>None\<close>, so no attempt ever raises and the decorator has
  nothing to retry: whatever the service does, it is called once, no wait is slept, and a
  failure of the first call gives \<open>None\<close> even when a second call would have succeeded.
\<close>

theorem generate_summary_never_retries:
  "snd (generate_summary api json_loads) = (1, [])
   \<and> generate_summary (\<lambda>n. if n = 1 then ApiRaises else ApiReturns good) json_loads
       = (Inr None, 1, [])"
proof -
  obtain v where v: "generate_summary_body json_loads (api (Suc 0)) = Returned v"
    using generate_summary_body_returns by blast
  have "generate_summary api json_loads = (Inr v, 1, [])"
    unfolding generate_summary_def
    by (simp only: eval_nat_numeral) (simp add: v)
  moreover have "generate_summary (\<lambda>n. if n = 1 then ApiRaises else ApiReturns good) json_loads
       = (Inr None, 1, [])"
    unfolding generate_summary_def
    by (simp only: eval_nat_numeral) (simp add: generate_summary_body_def)
  ultimately show ?thesis by simp
qed

theorem generate_summary_never_retries_witness:
  "snd (generate_summary (\<lambda>n. ApiRaises) (\<lambda>s. None)) = (1, [])
   \<and> generate_summary (\<lambda>n. if n = 1 then ApiRaises else ApiReturns (lit ''{}'')) (\<lambda>s. None)
       = (Inr None, 1, [])"
  using generate_summary_never_retries [of "\<lambda>n. ApiRaises" "\<lambda>s. None" "lit ''{}''"]
  by simp

section \<open>Float arithmetic of the crop\<close>







section \<open>The claim about \_prepare\_background\<close>






































end
